theory Spec2Isabelle
  imports Complex_Main "HOL-Library.Log_Nat"
begin

section \<open>The C type \<open>double\<close>: IEEE-754 binary64 values\<close>

text \<open>
  The library \<open>c_callback_example.c\<close> computes with C \<open>double\<close>s. A \<open>double\<close> is modelled
  as a sign with a magnitude, an infinity with a sign, or NaN (one NaN: payloads are not
  distinguished). \<open>Finite s q\<close> has the sign bit \<open>s\<close> (\<open>True\<close> is negative) and the magnitude
  \<open>q\<close>, so \<open>Finite False 0\<close> is \<open>+0.0\<close> and \<open>Finite True 0\<close> is \<open>-0.0\<close>.

  Every arithmetic operation computes the exact rational result and rounds it once to
  binary64, to nearest with ties to even (the default rounding mode; no operation is
  fused with another and none is evaluated in a wider format).
\<close>

datatype double = Finite bool rat | Infinity bool | NaN

definition val :: "double \<Rightarrow> rat" where
  "val x = (case x of Finite s q \<Rightarrow> (if s then - q else q) | _ \<Rightarrow> 0)"

text \<open>Round a rational to the nearest integer, a tie to the even neighbour.\<close>

definition rne :: "rat \<Rightarrow> int" where
  "rne x = (let n = \<lfloor>x\<rfloor>; d = x - of_int n
            in if d < 1 / 2 then n
               else if 1 / 2 < d then n + 1
               else if even n then n else n + 1)"

text \<open>\<open>flog2 q\<close> is the integer \<open>k\<close> with \<open>2 powi k \<le> q < 2 powi (k + 1)\<close>, for \<open>0 < q\<close>.\<close>

definition flog2 :: "rat \<Rightarrow> int" where
  "flog2 q = (case quotient_of q of (n, d) \<Rightarrow>
                (let k = bitlen n - bitlen d in if 2 powi k \<le> q then k else k - 1))"

text \<open>
  Rounding of a magnitude \<open>0 < q\<close> to binary64: 53 significant bits, the least exponent
  of the last place is \<open>-1074\<close> (subnormal numbers), and a rounded magnitude of
  \<open>2 ^ 1024\<close> or more overflows to infinity. A magnitude that rounds to zero keeps its sign.
\<close>

definition round_double :: "bool \<Rightarrow> rat \<Rightarrow> double" where
  "round_double s q =
     (let e = max (flog2 q - 52) (- 1074);
          r = of_int (rne (q / 2 powi e)) * 2 powi e
      in if 2 ^ 1024 \<le> r then Infinity s else Finite s r)"

fun d_neg :: "double \<Rightarrow> double" where
  "d_neg (Finite s q) = Finite (\<not> s) q"
| "d_neg (Infinity s) = Infinity (\<not> s)"
| "d_neg NaN = NaN"

fun d_add :: "double \<Rightarrow> double \<Rightarrow> double" where
  "d_add NaN _ = NaN"
| "d_add _ NaN = NaN"
| "d_add (Infinity s) (Infinity t) = (if s = t then Infinity s else NaN)"
| "d_add (Infinity s) (Finite _ _) = Infinity s"
| "d_add (Finite _ _) (Infinity t) = Infinity t"
| "d_add (Finite s p) (Finite t q) =
     (let v = val (Finite s p) + val (Finite t q)
      in if v = 0 then Finite (s \<and> t) 0 else round_double (v < 0) \<bar>v\<bar>)"

definition d_sub :: "double \<Rightarrow> double \<Rightarrow> double" where
  "d_sub x y = d_add x (d_neg y)"

fun d_mul :: "double \<Rightarrow> double \<Rightarrow> double" where
  "d_mul NaN _ = NaN"
| "d_mul _ NaN = NaN"
| "d_mul (Infinity s) (Infinity t) = Infinity (s \<noteq> t)"
| "d_mul (Infinity s) (Finite t q) = (if q = 0 then NaN else Infinity (s \<noteq> t))"
| "d_mul (Finite s p) (Infinity t) = (if p = 0 then NaN else Infinity (s \<noteq> t))"
| "d_mul (Finite s p) (Finite t q) =
     (if p * q = 0 then Finite (s \<noteq> t) 0 else round_double (s \<noteq> t) (p * q))"

fun d_div :: "double \<Rightarrow> double \<Rightarrow> double" where
  "d_div NaN _ = NaN"
| "d_div _ NaN = NaN"
| "d_div (Infinity s) (Infinity t) = NaN"
| "d_div (Infinity s) (Finite t q) = Infinity (s \<noteq> t)"
| "d_div (Finite s p) (Infinity t) = Finite (s \<noteq> t) 0"
| "d_div (Finite s p) (Finite t q) =
     (if q = 0 then (if p = 0 then NaN else Infinity (s \<noteq> t))
      else if p = 0 then Finite (s \<noteq> t) 0
      else round_double (s \<noteq> t) (p / q))"

text \<open>The comparison \<open><\<close>: false whenever an operand is NaN; \<open>-0.0\<close> and \<open>+0.0\<close> are equal.\<close>

fun d_lt :: "double \<Rightarrow> double \<Rightarrow> bool" where
  "d_lt NaN _ = False"
| "d_lt _ NaN = False"
| "d_lt (Infinity s) (Infinity t) = (s \<and> \<not> t)"
| "d_lt (Infinity s) (Finite _ _) = s"
| "d_lt (Finite _ _) (Infinity t) = (\<not> t)"
| "d_lt (Finite s p) (Finite t q) = (val (Finite s p) < val (Finite t q))"

text \<open>The comparison \<open>>=\<close>, as C defines it: false whenever an operand is NaN.\<close>

definition d_ge :: "double \<Rightarrow> double \<Rightarrow> bool" where
  "d_ge x y = (x \<noteq> NaN \<and> y \<noteq> NaN \<and> \<not> d_lt x y)"

text \<open>The comparison \<open>==\<close>, as C defines it.\<close>

definition d_eq :: "double \<Rightarrow> double \<Rightarrow> bool" where
  "d_eq x y = (x \<noteq> NaN \<and> y \<noteq> NaN \<and> \<not> d_lt x y \<and> \<not> d_lt y x)"

text \<open>\<open>fabs\<close>, \<open>isnan\<close> and \<open>isinf\<close> of \<open>math.h\<close>.\<close>

fun fabs :: "double \<Rightarrow> double" where
  "fabs (Finite s q) = Finite False q"
| "fabs (Infinity s) = Infinity False"
| "fabs NaN = NaN"

fun isnan :: "double \<Rightarrow> bool" where
  "isnan NaN = True"
| "isnan _ = False"

fun isinf :: "double \<Rightarrow> bool" where
  "isinf (Infinity s) = True"
| "isinf _ = False"

fun isfinite :: "double \<Rightarrow> bool" where
  "isfinite (Finite s q) = True"
| "isfinite _ = False"

text \<open>
  C \<open>int\<close>s are modelled as integers. The library does no arithmetic on them except
  counting a loop index up to a bound that is itself an \<open>int\<close>, so nothing wraps around.
  The conversion of an \<open>int\<close> to \<open>double\<close> rounds like every other operation (and is
  exact on 32-bit values).
\<close>

definition double_of_int :: "int \<Rightarrow> double" where
  "double_of_int i = (if i = 0 then Finite False 0 else round_double (i < 0) (of_int \<bar>i\<bar>))"

text \<open>The constants the source writes: \<open>2.0\<close>, \<open>0.0\<close>, \<open>1.0\<close> and \<open>1e-10\<close>.\<close>

definition lit_2_0 :: double where
  "lit_2_0 = Finite False 2"

definition lit_0_0 :: double where
  "lit_0_0 = Finite False 0"

definition lit_1_0 :: double where
  "lit_1_0 = Finite False 1"

definition lit_1e_10 :: double where
  "lit_1e_10 = round_double False (1 / 10 ^ 10)"


section \<open>Callbacks, the host and the trace\<close>

text \<open>
  A callback is a function pointer supplied by the host. It may read and change the
  host's state \<open>'h\<close>, so it is a function from its arguments and the host state to its
  result and the new host state. The typedefs of the source that the functions below use:
\<close>

type_synonym 'h double_callback_t = "double \<Rightarrow> 'h \<Rightarrow> double \<times> 'h"
type_synonym 'h binary_callback_t = "double \<Rightarrow> double \<Rightarrow> 'h \<Rightarrow> double \<times> 'h"
type_synonym 'h int_callback_t = "int \<Rightarrow> 'h \<Rightarrow> int \<times> 'h"

text \<open>
  What a run does besides returning is recorded in order in a trace: each \<open>printf\<close> and
  \<open>fprintf(stderr, ...)\<close> with its format string and arguments, and each invocation of a
  callback with its arguments and its result.
\<close>

datatype parg = PDouble double | PInt int

datatype event =
    Stdout string "parg list"
  | Stderr string "parg list"
  | Call "parg list" parg

record 'h world =
  host :: 'h
  trace :: "event list"

definition printf :: "string \<Rightarrow> parg list \<Rightarrow> 'h world \<Rightarrow> 'h world" where
  "printf fmt args w = w\<lparr>trace := trace w @ [Stdout fmt args]\<rparr>"

definition fprintf_stderr :: "string \<Rightarrow> parg list \<Rightarrow> 'h world \<Rightarrow> 'h world" where
  "fprintf_stderr fmt args w = w\<lparr>trace := trace w @ [Stderr fmt args]\<rparr>"

text \<open>The call \<open>callback(value)\<close> through a function pointer of each shape.\<close>

definition invoke_double :: "'h double_callback_t \<Rightarrow> double \<Rightarrow> 'h world \<Rightarrow> double \<times> 'h world" where
  "invoke_double callback v w =
     (case callback v (host w) of (r, h') \<Rightarrow>
        (r, w\<lparr>host := h', trace := trace w @ [Call [PDouble v] (PDouble r)]\<rparr>))"

definition invoke_binary ::
    "'h binary_callback_t \<Rightarrow> double \<Rightarrow> double \<Rightarrow> 'h world \<Rightarrow> double \<times> 'h world" where
  "invoke_binary callback a b w =
     (case callback a b (host w) of (r, h') \<Rightarrow>
        (r, w\<lparr>host := h', trace := trace w @ [Call [PDouble a, PDouble b] (PDouble r)]\<rparr>))"

definition invoke_int :: "'h int_callback_t \<Rightarrow> int \<Rightarrow> 'h world \<Rightarrow> int \<times> 'h world" where
  "invoke_int callback v w =
     (case callback v (host w) of (r, h') \<Rightarrow>
        (r, w\<lparr>host := h', trace := trace w @ [Call [PInt v] (PInt r)]\<rparr>))"

text \<open>A C function without side effects, used as a callback.\<close>

definition pure_cb :: "('a \<Rightarrow> 'b) \<Rightarrow> 'a \<Rightarrow> 'h \<Rightarrow> 'b \<times> 'h" where
  "pure_cb f v h = (f v, h)"

definition pure_cb2 :: "('a \<Rightarrow> 'b \<Rightarrow> 'c) \<Rightarrow> 'a \<Rightarrow> 'b \<Rightarrow> 'h \<Rightarrow> 'c \<times> 'h" where
  "pure_cb2 f a b h = (f a b, h)"


section \<open>The library functions\<close>

subsection \<open>Simple callback functions\<close>

definition call_with_double ::
    "'h double_callback_t \<Rightarrow> double \<Rightarrow> 'h world \<Rightarrow> double \<times> 'h world" where
  "call_with_double callback v w =
     (let w1 = printf ''C: Calling callback with %.2f\<newline>'' [PDouble v] w
      in case invoke_double callback v w1 of (result, w2) \<Rightarrow>
           (result, printf ''C: Callback returned %.2f\<newline>'' [PDouble result] w2))"

definition call_with_two_doubles ::
    "'h binary_callback_t \<Rightarrow> double \<Rightarrow> double \<Rightarrow> 'h world \<Rightarrow> double \<times> 'h world" where
  "call_with_two_doubles callback a b w =
     (let w1 = printf ''C: Calling callback with %.2f and %.2f\<newline>'' [PDouble a, PDouble b] w
      in case invoke_binary callback a b w1 of (result, w2) \<Rightarrow>
           (result, printf ''C: Callback returned %.2f\<newline>'' [PDouble result] w2))"

subsection \<open>\<open>map_array\<close>\<close>

text \<open>
  The buffer of \<open>map_array\<close> is memory of the caller, and the host's callback can read and
  write it like any other memory of the host. So for \<open>map_array\<close> the host state has a
  heap of \<open>double\<close> cells, addressed by natural numbers, beside the rest of the state.
  \<open>array\<close> is the address of the first cell of the buffer and \<open>array[i]\<close> is the cell
  \<open>array + i\<close>. Reading or writing a cell that is not allocated is undefined behaviour: the
  result \<open>None\<close>. The function returns nothing: the buffer it has written is in the heap
  of the world it leaves.
\<close>

record 'g host_memory =
  heap :: "nat \<Rightarrow> double option"
  other :: 'g

definition store_cell :: "nat \<Rightarrow> double \<Rightarrow> 'g host_memory world \<Rightarrow> 'g host_memory world" where
  "store_cell p v w = w\<lparr>host := (host w)\<lparr>heap := (heap (host w))(p \<mapsto> v)\<rparr>\<rparr>"

function map_array_loop ::
    "'g host_memory double_callback_t \<Rightarrow> nat \<Rightarrow> int \<Rightarrow> int \<Rightarrow> 'g host_memory world
      \<Rightarrow> 'g host_memory world option" where
  "map_array_loop callback array len i w =
     (if i < len then
        (case heap (host w) (array + nat i) of
           None \<Rightarrow> None
         | Some v \<Rightarrow>
             (case invoke_double callback v w of (r, w') \<Rightarrow>
                (case heap (host w') (array + nat i) of
                   None \<Rightarrow> None
                 | Some u \<Rightarrow>
                     map_array_loop callback array len (i + 1) (store_cell (array + nat i) r w'))))
      else Some w)"
  by pat_completeness auto
termination
  by (relation "measure (\<lambda>(callback, array, len, i, w). nat (len - i))") auto

definition map_array ::
    "'g host_memory double_callback_t \<Rightarrow> nat \<Rightarrow> int \<Rightarrow> 'g host_memory world
      \<Rightarrow> 'g host_memory world option" where
  "map_array callback array len w =
     map_array_loop callback array len 0
       (printf ''C: Mapping over array of %d elements\<newline>'' [PInt len] w)"

subsection \<open>\<open>integrate\<close>\<close>

text \<open>
  In \<open>function(a) + function(b)\<close> C does not say which of the two calls is made first; the
  model takes the order as a parameter.
\<close>

datatype operand_order = Left_first | Right_first

function integrate_loop ::
    "'h double_callback_t \<Rightarrow> double \<Rightarrow> double \<Rightarrow> int \<Rightarrow> int \<Rightarrow> double \<Rightarrow> 'h world
      \<Rightarrow> double \<times> 'h world" where
  "integrate_loop f a h steps i sum_acc w =
     (if i < steps then
        (let x = d_add a (d_mul (double_of_int i) h)
         in case invoke_double f x w of (fx, w') \<Rightarrow>
              integrate_loop f a h steps (i + 1) (d_add sum_acc fx) w')
      else (sum_acc, w))"
  by pat_completeness auto
termination
  by (relation "measure (\<lambda>(f, a, h, steps, i, sum_acc, w). nat (steps - i))") auto

definition integrate ::
    "operand_order \<Rightarrow> 'h double_callback_t \<Rightarrow> double \<Rightarrow> double \<Rightarrow> int \<Rightarrow> 'h world
      \<Rightarrow> double \<times> 'h world" where
  "integrate ord f a b steps w =
     (let h = d_div (d_sub b a) (double_of_int steps)
      in case (case ord of
                 Left_first \<Rightarrow>
                   (case invoke_double f a w of (fa, w1) \<Rightarrow>
                    case invoke_double f b w1 of (fb, w2) \<Rightarrow> (fa, fb, w2))
               | Right_first \<Rightarrow>
                   (case invoke_double f b w of (fb, w1) \<Rightarrow>
                    case invoke_double f a w1 of (fa, w2) \<Rightarrow> (fa, fb, w2)))
         of (fa, fb, w2) \<Rightarrow>
           (case integrate_loop f a h steps 1 (d_div (d_add fa fb) lit_2_0) w2
            of (sum_acc, w3) \<Rightarrow> (d_mul sum_acc h, w3)))"

subsection \<open>\<open>find_root\<close>\<close>

function find_root_loop ::
    "'h double_callback_t \<Rightarrow> 'h double_callback_t \<Rightarrow> int \<Rightarrow> int \<Rightarrow> double \<Rightarrow> 'h world
      \<Rightarrow> double \<times> 'h world" where
  "find_root_loop f df max_iter i x w =
     (if i < max_iter then
        (case invoke_double f x w of (fx, w1) \<Rightarrow>
         case invoke_double df x w1 of (dfx, w2) \<Rightarrow>
           if d_lt (fabs dfx) lit_1e_10 then (x, w2)
           else
             (let x_new = d_sub x (d_div fx dfx)
              in if d_lt (fabs (d_sub x_new x)) lit_1e_10 then (x, w2)
                 else find_root_loop f df max_iter (i + 1) x_new w2))
      else (x, w))"
  by pat_completeness auto
termination
  by (relation "measure (\<lambda>(f, df, max_iter, i, x, w). nat (max_iter - i))") auto

definition find_root ::
    "'h double_callback_t \<Rightarrow> 'h double_callback_t \<Rightarrow> double \<Rightarrow> int \<Rightarrow> 'h world
      \<Rightarrow> double \<times> 'h world" where
  "find_root f df x0 max_iter w = find_root_loop f df max_iter 0 x0 w"

text \<open>
  The divisors of the divisions \<open>fx / dfx\<close> that a run of \<open>find_root\<close> executes, in the
  order of execution: the same loop, collecting \<open>dfx\<close> each time control reaches the
  line \<open>double x_new = x - fx / dfx\<close>.
\<close>

function find_root_divisors_loop ::
    "'h double_callback_t \<Rightarrow> 'h double_callback_t \<Rightarrow> int \<Rightarrow> int \<Rightarrow> double \<Rightarrow> 'h world
      \<Rightarrow> double list" where
  "find_root_divisors_loop f df max_iter i x w =
     (if i < max_iter then
        (case invoke_double f x w of (fx, w1) \<Rightarrow>
         case invoke_double df x w1 of (dfx, w2) \<Rightarrow>
           if d_lt (fabs dfx) lit_1e_10 then []
           else
             (let x_new = d_sub x (d_div fx dfx)
              in if d_lt (fabs (d_sub x_new x)) lit_1e_10 then [dfx]
                 else dfx # find_root_divisors_loop f df max_iter (i + 1) x_new w2))
      else [])"
  by pat_completeness auto
termination
  by (relation "measure (\<lambda>(f, df, max_iter, i, x, w). nat (max_iter - i))") auto

definition find_root_divisors ::
    "'h double_callback_t \<Rightarrow> 'h double_callback_t \<Rightarrow> double \<Rightarrow> int \<Rightarrow> 'h world
      \<Rightarrow> double list" where
  "find_root_divisors f df x0 max_iter w = find_root_divisors_loop f df max_iter 0 x0 w"

subsection \<open>\<open>sum_callback_results\<close>\<close>

function sum_callback_loop ::
    "'h int_callback_t \<Rightarrow> int \<Rightarrow> int \<Rightarrow> double \<Rightarrow> 'h world \<Rightarrow> double \<times> 'h world" where
  "sum_callback_loop callback count i sum_acc w =
     (if i < count then
        (case invoke_int callback i w of (r, w') \<Rightarrow>
           sum_callback_loop callback count (i + 1) (d_add sum_acc (double_of_int r)) w')
      else (sum_acc, w))"
  by pat_completeness auto
termination
  by (relation "measure (\<lambda>(callback, count, i, sum_acc, w). nat (count - i))") auto

definition sum_callback_results ::
    "'h int_callback_t \<Rightarrow> int \<Rightarrow> 'h world \<Rightarrow> double \<times> 'h world" where
  "sum_callback_results callback count w = sum_callback_loop callback count 0 lit_0_0 w"

subsection \<open>\<open>call_with_validation\<close>\<close>

definition call_with_validation ::
    "'h double_callback_t \<Rightarrow> double \<Rightarrow> 'h world \<Rightarrow> double \<times> 'h world" where
  "call_with_validation callback v w =
     (case invoke_double callback v w of (result, w1) \<Rightarrow>
        if isnan result \<or> isinf result then
          (d_neg lit_1_0, fprintf_stderr ''C: Callback returned invalid result\<newline>'' [] w1)
        else (result, w1))"

subsection \<open>Test helper functions\<close>

definition test_double_function :: "double \<Rightarrow> double" where
  "test_double_function x = d_mul x lit_2_0"

definition test_add_function :: "double \<Rightarrow> double \<Rightarrow> double" where
  "test_add_function a b = d_add a b"


section \<open>Notions used to state the properties\<close>

subsection \<open>Representable magnitudes\<close>

text \<open>
  A positive magnitude is representable in binary64 when it is \<open>m * 2 powi e\<close> with a
  significand \<open>m\<close> below \<open>2 ^ 53\<close> and \<open>e\<close> at least \<open>-1074\<close>, and it is below \<open>2 ^ 1024\<close>.
  \<open>is_double\<close> holds of the values that are bit patterns of binary64.
\<close>

definition representable :: "rat \<Rightarrow> bool" where
  "representable q =
     (\<exists>m e. q = of_int m * 2 powi e \<and> 0 < m \<and> m < 2 ^ 53 \<and> - 1074 \<le> e \<and> q < 2 ^ 1024)"

definition is_double :: "double \<Rightarrow> bool" where
  "is_double x = (case x of Finite s q \<Rightarrow> q = 0 \<or> representable q | _ \<Rightarrow> True)"

text \<open>\<open>DBL_MAX\<close>, the largest finite double.\<close>

definition dbl_max :: double where
  "dbl_max = Finite False (2 ^ 1024 - 2 ^ 971)"

subsection \<open>Calling a callback on a list of arguments, in order\<close>

text \<open>
  \<open>thread_calls cb xs h\<close> calls \<open>cb\<close> on the elements of \<open>xs\<close> from left to right, each call
  in the host state the previous one left: the results, and the last host state.
  \<open>calls_trace\<close> is the trace these calls leave.
\<close>

fun thread_calls :: "('a \<Rightarrow> 'h \<Rightarrow> 'b \<times> 'h) \<Rightarrow> 'a list \<Rightarrow> 'h \<Rightarrow> 'b list \<times> 'h" where
  "thread_calls cb [] h = ([], h)"
| "thread_calls cb (x # xs) h =
     (case cb x h of (r, h') \<Rightarrow>
      case thread_calls cb xs h' of (rs, h'') \<Rightarrow> (r # rs, h''))"

definition calls_trace :: "double list \<Rightarrow> double list \<Rightarrow> event list" where
  "calls_trace xs rs = map (\<lambda>(x, r). Call [PDouble x] (PDouble r)) (zip xs rs)"

definition int_calls_trace :: "int list \<Rightarrow> int list \<Rightarrow> event list" where
  "int_calls_trace xs rs = map (\<lambda>(x, r). Call [PInt x] (PInt r)) (zip xs rs)"

subsection \<open>The buffer of \<open>map_array\<close>\<close>




subsection \<open>The composite trapezoidal rule, as the specification writes it\<close>

text \<open>
  The width \<open>h = (b - a) / steps\<close>, the interior sample points \<open>a + i * h\<close> for
  \<open>i = 1, ..., steps - 1\<close> in ascending order, the sum
  \<open>(f(a) + f(b)) / 2 + f(a + 1 * h) + ... + f(a + (steps - 1) * h)\<close> accumulated from left
  to right, and the result \<open>sum * h\<close>, for a function \<open>f\<close> without side effects.
\<close>

definition step_width :: "double \<Rightarrow> double \<Rightarrow> int \<Rightarrow> double" where
  "step_width a b steps = d_div (d_sub b a) (double_of_int steps)"

definition sample_points :: "double \<Rightarrow> double \<Rightarrow> int \<Rightarrow> double list" where
  "sample_points a h steps = map (\<lambda>i. d_add a (d_mul (double_of_int i) h)) [1..steps - 1]"

definition trapezoid_sum :: "(double \<Rightarrow> double) \<Rightarrow> double \<Rightarrow> double \<Rightarrow> int \<Rightarrow> double" where
  "trapezoid_sum f a b steps =
     foldl d_add (d_div (d_add (f a) (f b)) lit_2_0)
       (map f (sample_points a (step_width a b steps) steps))"

definition trapezoid :: "(double \<Rightarrow> double) \<Rightarrow> double \<Rightarrow> double \<Rightarrow> int \<Rightarrow> double" where
  "trapezoid f a b steps = d_mul (trapezoid_sum f a b steps) (step_width a b steps)"

text \<open>
  The same for a callback with side effects: the arguments of its calls in the order the
  calls are made (the two end points first, in the order the operands of \<open>+\<close> are
  evaluated), and the result computed from the values the calls returned.
\<close>

definition integrate_args :: "operand_order \<Rightarrow> double \<Rightarrow> double \<Rightarrow> int \<Rightarrow> double list" where
  "integrate_args ord a b steps =
     (case ord of Left_first \<Rightarrow> [a, b] | Right_first \<Rightarrow> [b, a])
     @ sample_points a (step_width a b steps) steps"

definition trapezoid_sum_of_values :: "operand_order \<Rightarrow> double list \<Rightarrow> double" where
  "trapezoid_sum_of_values ord rs =
     (let fa = (case ord of Left_first \<Rightarrow> rs ! 0 | Right_first \<Rightarrow> rs ! 1);
          fb = (case ord of Left_first \<Rightarrow> rs ! 1 | Right_first \<Rightarrow> rs ! 0)
      in foldl d_add (d_div (d_add fa fb) lit_2_0) (drop 2 rs))"

definition trapezoid_of_values :: "operand_order \<Rightarrow> double list \<Rightarrow> double \<Rightarrow> double" where
  "trapezoid_of_values ord rs h = d_mul (trapezoid_sum_of_values ord rs) h"

subsection \<open>The Newton iteration\<close>

text \<open>
  A state of the loop of \<open>find_root\<close> is the current iterate \<open>x\<close> with the world.
  \<open>derivative_at\<close> is the value \<open>dfx\<close> that an iteration started in that state computes
  (after it has called \<open>f\<close>), and \<open>newton_step\<close> is the state after the iteration's two
  calls with \<open>x_new = x - fx / dfx\<close> as the iterate. \<open>derivative_small\<close> and \<open>converged\<close> are
  the two tests of the loop body, and \<open>newton_state f df x0 w k\<close> is the state after \<open>k\<close>
  steps from \<open>x0\<close>.
\<close>

definition derivative_at ::
    "'h double_callback_t \<Rightarrow> 'h double_callback_t \<Rightarrow> double \<times> 'h world \<Rightarrow> double" where
  "derivative_at f df s =
     (case s of (x, w) \<Rightarrow>
      case invoke_double f x w of (fx, w1) \<Rightarrow>
      case invoke_double df x w1 of (dfx, w2) \<Rightarrow> dfx)"

definition newton_step ::
    "'h double_callback_t \<Rightarrow> 'h double_callback_t \<Rightarrow> double \<times> 'h world
      \<Rightarrow> double \<times> 'h world" where
  "newton_step f df s =
     (case s of (x, w) \<Rightarrow>
      case invoke_double f x w of (fx, w1) \<Rightarrow>
      case invoke_double df x w1 of (dfx, w2) \<Rightarrow> (d_sub x (d_div fx dfx), w2))"

definition derivative_small ::
    "'h double_callback_t \<Rightarrow> 'h double_callback_t \<Rightarrow> double \<times> 'h world \<Rightarrow> bool" where
  "derivative_small f df s = d_lt (fabs (derivative_at f df s)) lit_1e_10"

definition converged ::
    "'h double_callback_t \<Rightarrow> 'h double_callback_t \<Rightarrow> double \<times> 'h world \<Rightarrow> bool" where
  "converged f df s = d_lt (fabs (d_sub (fst (newton_step f df s)) (fst s))) lit_1e_10"

definition newton_state ::
    "'h double_callback_t \<Rightarrow> 'h double_callback_t \<Rightarrow> double \<Rightarrow> 'h world \<Rightarrow> nat
      \<Rightarrow> double \<times> 'h world" where
  "newton_state f df x0 w k = (newton_step f df ^^ k) (x0, w)"

text \<open>The first \<open>k\<close> iterations all pass both tests, so that the loop goes on.\<close>

definition keeps_going ::
    "'h double_callback_t \<Rightarrow> 'h double_callback_t \<Rightarrow> double \<Rightarrow> 'h world \<Rightarrow> nat \<Rightarrow> bool" where
  "keeps_going f df x0 w k =
     list_all (\<lambda>j. \<not> derivative_small f df (newton_state f df x0 w j)
                  \<and> \<not> converged f df (newton_state f df x0 w j)) [0..<k]"

subsection \<open>Concrete inputs\<close>

text \<open>
  A world with a trivial host and an empty trace, and C functions without side effects that
  serve as callbacks in the examples: \<open>f(x) = x - 42\<close> with \<open>df(x) = 1\<close> (the root-finding
  example of the specification), \<open>f(x) = x - 2 powi -40\<close>, the identity on \<open>int\<close>, and
  constant functions.
\<close>

definition empty_world :: "unit world" where
  "empty_world = \<lparr>host = (), trace = []\<rparr>"

definition minus_42 :: "double \<Rightarrow> double" where
  "minus_42 x = d_sub x (Finite False 42)"

definition minus_tiny :: "double \<Rightarrow> double" where
  "minus_tiny x = d_sub x (Finite False (1 / 2 ^ 40))"

definition const_one :: "double \<Rightarrow> double" where
  "const_one x = Finite False 1"

definition const_zero :: "double \<Rightarrow> double" where
  "const_zero x = Finite False 0"

definition const_nan :: "double \<Rightarrow> double" where
  "const_nan x = NaN"

definition const_dbl_max :: "double \<Rightarrow> double" where
  "const_dbl_max x = dbl_max"

text \<open>
  A world whose heap holds the buffer \<open>[1.0, 2.0]\<close> at address \<open>0\<close>, a world whose heap
  holds \<open>[21.0, 0.0]\<close> there, and a callback that returns \<open>x + 1\<close> and writes \<open>100.0\<close>
  to the cell at address \<open>1\<close>.
\<close>

definition buffer_world :: "double \<Rightarrow> double \<Rightarrow> unit host_memory world" where
  "buffer_world x y =
     \<lparr>host = \<lparr>heap = (\<lambda>p. None)(0 \<mapsto> x, 1 \<mapsto> y), other = ()\<rparr>,
      trace = []\<rparr>"

definition add_one :: "double \<Rightarrow> double" where
  "add_one x = d_add x (Finite False 1)"

definition add_one_and_write :: "unit host_memory double_callback_t" where
  "add_one_and_write x h = (add_one x, h\<lparr>heap := (heap h)(1 \<mapsto> Finite False 100)\<rparr>)"

definition identity_int :: "int \<Rightarrow> int" where
  "identity_int i = i"


section \<open>Lemmas\<close>

declare map_array_loop.simps [simp del]
declare sum_callback_loop.simps [simp del]
declare integrate_loop.simps [simp del]
declare find_root_loop.simps [simp del]
declare find_root_divisors_loop.simps [simp del]

subsection \<open>Rounding\<close>

lemma flog2_bounds:
  assumes "0 < q"
  shows "2 powi flog2 q \<le> q" and "q < 2 powi (flog2 q + 1)"
proof -
  obtain n d where nd: "quotient_of q = (n, d)" by (cases "quotient_of q")
  then have d: "0 < d" and q: "q = of_int n / of_int d"
    using quotient_of_denom_pos quotient_of_div by blast+
  from assms q d have n: "0 < n" by (simp add: zero_less_divide_iff)
  define k where "k = bitlen n - bitlen d"
  define bn where "bn = bitlen n"
  define bd where "bd = bitlen d"
  have pn: "1 \<le> bn" "1 \<le> bd"
    using n d bitlen_eq_zero_iff[of n] bitlen_eq_zero_iff[of d] bitlen_nonneg[of n] bitlen_nonneg[of d]
    unfolding bn_def bd_def by linarith+
  have "2 ^ nat (bn - 1) \<le> n" "n < 2 ^ nat bn"
    using bitlen_bounds[OF n] by (auto simp: bn_def)
  then have "(of_int (2 ^ nat (bn - 1)) :: rat) \<le> of_int n" "(of_int n :: rat) < of_int (2 ^ nat bn)"
    unfolding of_int_le_iff of_int_less_iff by auto
  then have rn: "(2::rat) powi (bn - 1) \<le> of_int n" "(of_int n :: rat) < 2 powi bn"
    using pn by (simp_all add: power_int_def)
  have "2 ^ nat (bd - 1) \<le> d" "d < 2 ^ nat bd"
    using bitlen_bounds[OF d] by (auto simp: bd_def)
  then have "(of_int (2 ^ nat (bd - 1)) :: rat) \<le> of_int d" "(of_int d :: rat) < of_int (2 ^ nat bd)"
    unfolding of_int_le_iff of_int_less_iff by auto
  then have rd: "(2::rat) powi (bd - 1) \<le> of_int d" "(of_int d :: rat) < 2 powi bd"
    using pn by (simp_all add: power_int_def)
  have f: "flog2 q = (if 2 powi k \<le> q then k else k - 1)"
    by (simp add: flog2_def nd k_def Let_def)
  have dpos: "(0::rat) < of_int d" using d by simp
  have p0: "\<And>j. (0::rat) < 2 powi j" by simp
  have "q < 2 powi bn / of_int d"
    unfolding q using rn(2) dpos by (simp add: divide_strict_right_mono)
  also have "\<dots> \<le> 2 powi bn / 2 powi (bd - 1)"
    using rd(1) p0 by (simp add: frac_le)
  also have "\<dots> = 2 powi (bn - (bd - 1))"
    by (subst power_int_diff) simp_all
  also have "bn - (bd - 1) = k + 1"
    by (simp add: k_def bn_def bd_def)
  finally have up: "q < 2 powi (k + 1)" .
  have "k - 1 = (bn - 1) - bd"
    by (simp add: k_def bn_def bd_def)
  then have "(2::rat) powi (k - 1) = 2 powi ((bn - 1) - bd)"
    by (simp only:)
  also have "\<dots> = 2 powi (bn - 1) / 2 powi bd"
    by (subst power_int_diff) simp_all
  also have "\<dots> \<le> of_int n / 2 powi bd"
    using rn(1) p0 by (simp add: divide_right_mono)
  also have "\<dots> \<le> of_int n / of_int d"
    using rd(2) dpos n by (simp add: frac_le)
  finally have lo: "2 powi (k - 1) \<le> q" unfolding q .
  show "2 powi flog2 q \<le> q" using f lo by auto
  show "q < 2 powi (flog2 q + 1)" using f up by (auto simp: not_le)
qed

lemma flog2_less:
  assumes "0 < q" "q < 2 powi j"
  shows "flog2 q < j"
proof (rule ccontr)
  assume "\<not> flog2 q < j"
  then have "j \<le> flog2 q" by simp
  then have "(2::rat) powi j \<le> 2 powi flog2 q"
    by (simp add: power_int_increasing)
  with flog2_bounds(1)[OF assms(1)] assms(2) show False by simp
qed

lemma rne_of_int: "rne (of_int k) = k"
  by (simp add: rne_def Let_def)

lemma rne_bounds: "\<lfloor>x\<rfloor> \<le> rne x" "rne x \<le> \<lfloor>x\<rfloor> + 1"
  by (simp_all add: rne_def Let_def)

lemma round_double_representable:
  assumes "representable q"
  shows "round_double s q = Finite s q"
proof -
  from assms obtain m e where q: "q = of_int m * 2 powi e" and m: "0 < m" "m < 2 ^ 53"
    and e: "- 1074 \<le> e" and lt: "q < 2 ^ 1024"
    unfolding representable_def by blast
  have qpos: "0 < q" using m q by simp
  have "of_int m < (2::rat) ^ 53" using m(2)
    by (metis of_int_less_iff of_int_numeral of_int_power)
  then have "q < 2 ^ 53 * 2 powi e" unfolding q by simp
  also have "\<dots> = 2 powi (e + 53)" by (simp add: power_int_add)
  finally have "flog2 q < e + 53" using flog2_less[OF qpos] by simp
  define e' where "e' = max (flog2 q - 52) (- 1074)"
  have le: "e' \<le> e" using \<open>flog2 q < e + 53\<close> e by (simp add: e'_def)
  have "q / 2 powi e' = of_int m * 2 powi (e - e')"
    unfolding q by (simp add: power_int_diff)
  also have "\<dots> = of_int (m * 2 ^ nat (e - e'))"
    using le by (simp add: power_int_def)
  finally have "q / 2 powi e' = of_int (m * 2 ^ nat (e - e'))" .
  then have "of_int (rne (q / 2 powi e')) * 2 powi e' = q"
    by (simp only: rne_of_int) (simp add: field_simps flip: \<open>q / 2 powi e' = of_int (m * 2 ^ nat (e - e'))\<close>)
  then show ?thesis
    using lt by (simp add: round_double_def Let_def flip: e'_def)
qed

subsection \<open>Results of the operations are doubles\<close>

lemma round_double_scaled:
  assumes "0 < q"
  shows "0 < q / 2 powi max (flog2 q - 52) (- 1074)"
    and "q / 2 powi max (flog2 q - 52) (- 1074) < 2 ^ 53"
proof -
  define e where "e = max (flog2 q - 52) (- 1074)"
  show "0 < q / 2 powi e" using assms by simp
  have "q < 2 powi (flog2 q + 1)" by (rule flog2_bounds(2)[OF assms])
  also have "\<dots> \<le> 2 powi (e + 53)"
    by (rule power_int_increasing) (simp_all add: e_def)
  also have "\<dots> = 2 powi e * 2 ^ 53" by (simp add: power_int_add)
  finally show "q / 2 powi e < 2 ^ 53"
    by (simp add: divide_less_eq mult.commute)
qed

lemma is_double_round_double:
  assumes "0 < q"
  shows "is_double (round_double s q)"
proof -
  define e where "e = max (flog2 q - 52) (- 1074)"
  define m where "m = rne (q / 2 powi e)"
  define r :: rat where "r = of_int m * 2 powi e"
  have rd: "round_double s q = (if 2 ^ 1024 \<le> r then Infinity s else Finite s r)"
    by (simp add: round_double_def Let_def e_def m_def r_def)
  have e: "- 1074 \<le> e" by (simp add: e_def)
  have sc: "0 < q / 2 powi e" "q / 2 powi e < 2 ^ 53"
    using round_double_scaled[OF assms] by (simp_all add: e_def)
  have "0 \<le> \<lfloor>q / 2 powi e\<rfloor>" using sc(1) by simp
  with rne_bounds(1)[of "q / 2 powi e"] have m0: "0 \<le> m" unfolding m_def by linarith
  have "\<lfloor>q / 2 powi e\<rfloor> < 2 ^ 53" using sc(2) by (simp add: floor_less_iff)
  with rne_bounds(2)[of "q / 2 powi e"] have m1: "m \<le> 2 ^ 53" unfolding m_def by linarith
  show ?thesis
  proof (cases "2 ^ 1024 \<le> r")
    case True
    then show ?thesis by (simp add: rd is_double_def)
  next
    case False
    then have lt: "r < 2 ^ 1024" by simp
    have "r = 0 \<or> representable r"
    proof (cases "m = 0")
      case True
      then show ?thesis by (simp add: r_def)
    next
      case mnz: False
      show ?thesis
      proof (cases "m = 2 ^ 53")
        case True
        have "(2::rat) powi (e + 1) = 2 powi e * 2"
          by (subst power_int_add) simp_all
        then have a: "r = of_int (2 ^ 52) * 2 powi (e + 1)"
          by (simp add: r_def True)
        have b: "(0::int) < 2 ^ 52" "(2::int) ^ 52 < 2 ^ 53" "- 1074 \<le> e + 1"
          using e by simp_all
        from a b lt have "r = of_int (2 ^ 52) * 2 powi (e + 1) \<and> (0::int) < 2 ^ 52
            \<and> (2::int) ^ 52 < 2 ^ 53 \<and> - 1074 \<le> e + 1 \<and> r < 2 ^ 1024"
          by blast
        then have "representable r"
          unfolding representable_def by blast
        then show ?thesis ..
      next
        case False
        with m0 m1 mnz have b: "0 < m" "m < 2 ^ 53" by linarith+
        from b e lt have "r = of_int m * 2 powi e \<and> 0 < m \<and> m < 2 ^ 53
            \<and> - 1074 \<le> e \<and> r < 2 ^ 1024"
          unfolding r_def by blast
        then have "representable r"
          unfolding representable_def by blast
        then show ?thesis ..
      qed
    qed
    then show ?thesis using False by (simp add: rd is_double_def)
  qed
qed

lemma is_double_d_add: "is_double (d_add x y)"
proof (cases x)
  case fx: (Finite s p)
  show ?thesis
  proof (cases y)
    case fy: (Finite t q)
    show ?thesis
      by (simp add: fx fy Let_def is_double_round_double) (simp add: is_double_def)
  qed (simp_all add: fx is_double_def)
next
  case (Infinity s)
  then show ?thesis by (cases y) (simp_all add: is_double_def)
qed (simp add: is_double_def)

lemma is_double_d_sub: "is_double (d_sub x y)"
  by (simp add: d_sub_def is_double_d_add)

lemma representable_1: "representable 1"
  unfolding representable_def by (intro exI[of _ 1] exI[of _ 0]) simp

lemma double_of_int_1: "double_of_int 1 = Finite False 1"
  by (simp add: double_of_int_def round_double_representable representable_1)

lemma d_div_1:
  assumes "is_double x"
  shows "d_div x (Finite False 1) = x"
proof (cases x)
  case (Finite s p)
  with assms show ?thesis
    by (auto simp: is_double_def round_double_representable)
qed simp_all

lemma round_double_nonzero:
  assumes "1 \<le> q"
  shows "round_double s q \<noteq> Finite t 0"
proof -
  have qpos: "0 < q" using assms by simp
  define e where "e = max (flog2 q - 52) (- 1074)"
  have "0 < flog2 q + 1"
  proof (rule ccontr)
    assume "\<not> 0 < flog2 q + 1"
    then have "(2::rat) powi (flog2 q + 1) \<le> 2 powi 0"
      by (intro power_int_increasing) simp_all
    with flog2_bounds(2)[OF qpos] assms show False by simp
  qed
  then have e: "e = flog2 q - 52" by (simp add: e_def)
  have "(2::rat) powi 52 = 2 powi (flog2 q - e)" by (simp add: e)
  also have "\<dots> = 2 powi flog2 q / 2 powi e" by (subst power_int_diff) simp_all
  also have "\<dots> \<le> q / 2 powi e"
    using flog2_bounds(1)[OF qpos] by (simp add: divide_right_mono)
  finally have big: "(2::rat) powi 52 \<le> q / 2 powi e" .
  have "(1::rat) \<le> 2 powi 52" by simp
  from order_trans[OF this big] have "1 \<le> q / 2 powi e" .
  then have "1 \<le> \<lfloor>q / 2 powi e\<rfloor>" by (simp add: le_floor_iff)
  with rne_bounds(1)[of "q / 2 powi e"] have "0 < rne (q / 2 powi e)" by linarith
  then have "0 < (of_int (rne (q / 2 powi e)) :: rat) * 2 powi e" by simp
  then show ?thesis
    by (auto simp: round_double_def Let_def simp flip: e_def)
qed

subsection \<open>Invocations and the simple functions\<close>

lemma invoke_double_eq:
  "invoke_double cb v w =
     (fst (cb v (host w)),
      w\<lparr>host := snd (cb v (host w)),
        trace := trace w @ [Call [PDouble v] (PDouble (fst (cb v (host w))))]\<rparr>)"
  by (simp add: invoke_double_def split: prod.split)

lemma invoke_binary_eq:
  "invoke_binary cb a b w =
     (fst (cb a b (host w)),
      w\<lparr>host := snd (cb a b (host w)),
        trace := trace w @ [Call [PDouble a, PDouble b] (PDouble (fst (cb a b (host w))))]\<rparr>)"
  by (simp add: invoke_binary_def split: prod.split)

lemma invoke_int_eq:
  "invoke_int cb v w =
     (fst (cb v (host w)),
      w\<lparr>host := snd (cb v (host w)),
        trace := trace w @ [Call [PInt v] (PInt (fst (cb v (host w))))]\<rparr>)"
  by (simp add: invoke_int_def split: prod.split)

lemma representable_42: "representable 42"
  unfolding representable_def by (intro exI[of _ 42] exI[of _ 0]) simp

lemma add_15_27: "test_add_function (Finite False 15) (Finite False 27) = Finite False 42"
  by (simp add: test_add_function_def val_def round_double_representable representable_42)

lemma double_21: "test_double_function (Finite False 21) = Finite False 42"
  by (simp add: test_double_function_def lit_2_0_def round_double_representable representable_42)

lemma call_with_validation_eq:
  "call_with_validation cb v w =
     (let r = fst (cb v (host w));
          w1 = w\<lparr>host := snd (cb v (host w)), trace := trace w @ [Call [PDouble v] (PDouble r)]\<rparr>
      in if isnan r \<or> isinf r
         then (Finite True 1,
               w1\<lparr>trace := trace w1 @ [Stderr ''C: Callback returned invalid result\<newline>'' []]\<rparr>)
         else (r, w1))"
  by (simp add: call_with_validation_def invoke_double_eq fprintf_stderr_def lit_1_0_def Let_def)

lemma isfinite_iff: "isfinite x \<longleftrightarrow> \<not> isnan x \<and> \<not> isinf x"
  by (cases x) simp_all

subsection \<open>\<open>map_array\<close>\<close>

lemma thread_calls_pure: "thread_calls (pure_cb f) xs h = (map f xs, h)"
  by (induction xs) (simp_all add: pure_cb_def)

lemma thread_calls_Cons:
  "thread_calls cb (x # xs) h =
     (fst (cb x h) # fst (thread_calls cb xs (snd (cb x h))),
      snd (thread_calls cb xs (snd (cb x h))))"
  by (simp split: prod.split)

lemma calls_trace_Cons:
  "calls_trace (x # xs) (r # rs) = Call [PDouble x] (PDouble r) # calls_trace xs rs"
  by (simp add: calls_trace_def)

lemma calls_trace_Nil: "calls_trace [] rs = []"
  by (simp add: calls_trace_def)

lemma calls_trace_map: "calls_trace xs (map f xs) = map (\<lambda>x. Call [PDouble x] (PDouble (f x))) xs"
  by (induction xs) (simp_all add: calls_trace_def)

lemma map_array_negative:
  "len < 0 \<Longrightarrow> map_array cb a len w
     = Some (w\<lparr>trace := trace w @ [Stdout ''C: Mapping over array of %d elements\<newline>'' [PInt len]]\<rparr>)"
  by (simp add: map_array_def printf_def) (subst map_array_loop.simps, simp)















subsection \<open>\<open>sum_callback_results\<close>\<close>

lemma int_calls_trace_Cons:
  "int_calls_trace (x # xs) (r # rs) = Call [PInt x] (PInt r) # int_calls_trace xs rs"
  by (simp add: int_calls_trace_def)

lemma int_calls_trace_Nil: "int_calls_trace [] rs = []"
  by (simp add: int_calls_trace_def)

lemma sum_callback_loop_thread:
  "sum_callback_loop cb count i s w =
     (foldl (\<lambda>acc r. d_add acc (double_of_int r)) s (fst (thread_calls cb [i..count - 1] (host w))),
      w\<lparr>host := snd (thread_calls cb [i..count - 1] (host w)),
        trace := trace w @ int_calls_trace [i..count - 1] (fst (thread_calls cb [i..count - 1] (host w)))\<rparr>)"
proof (induction cb count i s w rule: sum_callback_loop.induct)
  case (1 cb count i s w)
  show ?case
  proof (cases "i < count")
    case False
    then have "[i..count - 1] = []" by simp
    then show ?thesis using False
      by (subst sum_callback_loop.simps) (simp add: int_calls_trace_Nil)
  next
    case True
    then have up: "[i..count - 1] = i # [i + 1..count - 1]"
      by (simp add: upto_rec1)
    define r where "r = fst (cb i (host w))"
    define w' where "w' = w\<lparr>host := snd (cb i (host w)), trace := trace w @ [Call [PInt i] (PInt r)]\<rparr>"
    have inv: "invoke_int cb i w = (r, w')"
      by (simp add: invoke_int_eq r_def w'_def)
    have "sum_callback_loop cb count i s w
        = sum_callback_loop cb count (i + 1) (d_add s (double_of_int r)) w'"
      using True inv by (subst sum_callback_loop.simps) simp
    also note "1.IH"[OF True inv[symmetric]]
    finally show ?thesis
      by (simp add: up thread_calls_Cons int_calls_trace_Cons w'_def r_def del: thread_calls.simps(2))
  qed
qed

lemma sum_callback_results_thread:
  "sum_callback_results cb count w =
     (foldl (\<lambda>acc r. d_add acc (double_of_int r)) lit_0_0 (fst (thread_calls cb [0..count - 1] (host w))),
      w\<lparr>host := snd (thread_calls cb [0..count - 1] (host w)),
        trace := trace w @ int_calls_trace [0..count - 1] (fst (thread_calls cb [0..count - 1] (host w)))\<rparr>)"
  by (simp add: sum_callback_results_def sum_callback_loop_thread)

lemma representable_of_int:
  assumes "0 < i" "i < 2 ^ 53"
  shows "representable (of_int i)"
proof -
  have "(of_int i :: rat) < of_int (2 ^ 53)" using assms(2) by (simp only: of_int_less_iff)
  also have "\<dots> \<le> 2 ^ 1024" by (simp add: power_increasing)
  finally have "(of_int i :: rat) < 2 ^ 1024" .
  moreover have "(of_int i :: rat) = of_int i * 2 powi 0" by simp
  moreover have "- 1074 \<le> (0::int)" by simp
  ultimately have "(of_int i :: rat) = of_int i * 2 powi 0 \<and> 0 < i \<and> i < 2 ^ 53
      \<and> - 1074 \<le> (0::int) \<and> (of_int i :: rat) < 2 ^ 1024"
    using assms by blast
  then show ?thesis unfolding representable_def by blast
qed

lemma representable_numeral:
  "numeral k < (2::int) ^ 53 \<Longrightarrow> representable (numeral k)"
  using representable_of_int[of "numeral k"] by simp

lemma double_of_int_exact:
  "\<bar>i\<bar> < 2 ^ 53 \<Longrightarrow> double_of_int i = Finite (i < 0) (of_int \<bar>i\<bar>)"
  using representable_of_int[of "\<bar>i\<bar>"]
  by (auto simp: double_of_int_def round_double_representable)

lemma sum_identity_5:
  "foldl (\<lambda>acc r. d_add acc (double_of_int r)) lit_0_0 (map (\<lambda>i. i) [0..5 - 1]) = Finite False 10"
proof -
  have "[0..5 - 1] = [0, 1, 2, 3, 4::int]"
    by (simp add: upto_rec1)
  then show ?thesis
    by (simp add: lit_0_0_def double_of_int_exact val_def Let_def round_double_representable
        representable_1 representable_numeral)
qed

subsection \<open>\<open>integrate\<close>\<close>

lemma integrate_loop_thread:
  "integrate_loop f a h steps i s w =
     (foldl d_add s
        (fst (thread_calls f (map (\<lambda>i. d_add a (d_mul (double_of_int i) h)) [i..steps - 1]) (host w))),
      w\<lparr>host := snd (thread_calls f (map (\<lambda>i. d_add a (d_mul (double_of_int i) h)) [i..steps - 1]) (host w)),
        trace := trace w @
          calls_trace (map (\<lambda>i. d_add a (d_mul (double_of_int i) h)) [i..steps - 1])
            (fst (thread_calls f (map (\<lambda>i. d_add a (d_mul (double_of_int i) h)) [i..steps - 1]) (host w)))\<rparr>)"
proof (induction f a h steps i s w rule: integrate_loop.induct)
  case (1 f a h steps i s w)
  show ?case
  proof (cases "i < steps")
    case False
    then have "[i..steps - 1] = []" by simp
    then show ?thesis using False
      by (subst integrate_loop.simps) (simp add: calls_trace_Nil)
  next
    case True
    then have up: "[i..steps - 1] = i # [i + 1..steps - 1]"
      by (simp add: upto_rec1)
    define x where "x = d_add a (d_mul (double_of_int i) h)"
    define r where "r = fst (f x (host w))"
    define w' where "w' = w\<lparr>host := snd (f x (host w)), trace := trace w @ [Call [PDouble x] (PDouble r)]\<rparr>"
    have inv: "invoke_double f x w = (r, w')"
      by (simp add: invoke_double_eq r_def w'_def)
    have "integrate_loop f a h steps i s w = integrate_loop f a h steps (i + 1) (d_add s r) w'"
      using True inv by (subst integrate_loop.simps) (simp add: x_def Let_def)
    also note "1.IH"[OF True x_def inv[symmetric]]
    finally show ?thesis
      by (simp add: up thread_calls_Cons calls_trace_Cons w'_def r_def x_def del: thread_calls.simps(2))
  qed
qed

lemma integrate_threaded:
  "integrate ord f a b steps w =
     (trapezoid_of_values ord (fst (thread_calls f (integrate_args ord a b steps) (host w)))
        (step_width a b steps),
      w\<lparr>host := snd (thread_calls f (integrate_args ord a b steps) (host w)),
        trace := trace w @ calls_trace (integrate_args ord a b steps)
                   (fst (thread_calls f (integrate_args ord a b steps) (host w)))\<rparr>)"
  by (cases ord)
     (simp_all add: integrate_def integrate_args_def trapezoid_of_values_def
        trapezoid_sum_of_values_def step_width_def
        sample_points_def Let_def invoke_double_eq integrate_loop_thread thread_calls_Cons
        calls_trace_Cons
        del: thread_calls.simps(2))

lemma trapezoid_sum_of_values_pure:
  "trapezoid_sum_of_values ord (map f (integrate_args ord a b steps)) = trapezoid_sum f a b steps"
  by (cases ord) (simp_all add: trapezoid_sum_def trapezoid_sum_of_values_def integrate_args_def)

lemma integrate_pure:
  "integrate ord (pure_cb f) a b steps w =
     (trapezoid f a b steps,
      w\<lparr>trace := trace w @ map (\<lambda>x. Call [PDouble x] (PDouble (f x))) (integrate_args ord a b steps)\<rparr>)"
  by (simp add: integrate_threaded thread_calls_pure calls_trace_map trapezoid_def
      trapezoid_of_values_def trapezoid_sum_of_values_pure)

lemma step_width_1: "step_width a b 1 = d_sub b a"
  by (simp add: step_width_def double_of_int_1 d_div_1 is_double_d_sub)

lemma trapezoid_single:
  "trapezoid f a b 1 = d_mul (d_div (d_add (f a) (f b)) lit_2_0) (d_sub b a)"
  by (simp add: trapezoid_def trapezoid_sum_def sample_points_def step_width_1)

subsection \<open>Constants and a zero-width interval\<close>

lemma flog2_eq:
  assumes "2 powi k \<le> q" "q < 2 powi (k + 1)"
  shows "flog2 q = k"
proof -
  have "(0::rat) < 2 powi k" by simp
  with assms(1) have qpos: "0 < q" by linarith
  have up: "flog2 q < k + 1" by (rule flog2_less[OF qpos assms(2)])
  have "k < flog2 q + 1"
  proof (rule ccontr)
    assume "\<not> k < flog2 q + 1"
    then have "(2::rat) powi (flog2 q + 1) \<le> 2 powi k"
      by (intro power_int_increasing) simp_all
    with flog2_bounds(2)[OF qpos] assms(1) show False by simp
  qed
  with up show ?thesis by simp
qed

lemma round_double_sign:
  "round_double s q = Infinity s \<or> (\<exists>r. round_double s q = Finite s r)"
  by (simp add: round_double_def Let_def)

lemma floor_rat_numeral_div:
  "\<lfloor>(numeral a :: rat) / numeral b\<rfloor> = numeral a div numeral b"
  using floor_divide_of_int_eq[of "numeral a" "numeral b", where ?'a = rat] by simp

lemma lit_1e_10_value: "lit_1e_10 = Finite False (7737125245533627 / 2 ^ 86)"
proof -
  have "flog2 (1 / 10 ^ 10) = - 34"
    by (rule flog2_eq) simp_all
  then show ?thesis
    by (simp add: lit_1e_10_def round_double_def Let_def rne_def floor_rat_numeral_div)
qed

lemma d_add_dbl_max: "d_add dbl_max dbl_max = Infinity False"
proof -
  have "flog2 (2 * (2 ^ 1024 - 2 ^ 971)) = 1024"
    by (rule flog2_eq) simp_all
  then show ?thesis
    by (simp add: dbl_max_def val_def round_double_def Let_def rne_def)
qed

lemma d_sub_self: "isfinite a \<Longrightarrow> d_sub a a = Finite False 0"
  by (cases a) (simp_all add: d_sub_def val_def)

lemma double_of_int_pos:
  assumes "1 \<le> n"
  shows "double_of_int n = Infinity False \<or> (\<exists>r. double_of_int n = Finite False r \<and> r \<noteq> 0)"
proof -
  have q: "(1::rat) \<le> of_int \<bar>n\<bar>" using assms by simp
  have d: "double_of_int n = round_double False (of_int \<bar>n\<bar>)"
    using assms by (simp add: double_of_int_def)
  from round_double_sign[of False "of_int \<bar>n\<bar>"] round_double_nonzero[OF q, of False False]
  show ?thesis unfolding d by auto
qed

lemma step_width_self:
  assumes "isfinite a" "1 \<le> steps"
  shows "step_width a a steps = Finite False 0"
  using double_of_int_pos[OF assms(2)] by (auto simp: step_width_def d_sub_self[OF assms(1)])

lemma d_mul_zero:
  "isfinite x \<Longrightarrow> d_mul x (Finite False 0) = Finite False 0 \<or> d_mul x (Finite False 0) = Finite True 0"
  by (cases x) auto

lemma d_eq_zero: "d_eq (Finite s 0) lit_0_0"
  by (simp add: d_eq_def lit_0_0_def val_def)

lemma trapezoid_zero_width:
  assumes "isfinite a" "1 \<le> steps" "isfinite (trapezoid_sum_of_values ord rs)"
  shows "d_eq (trapezoid_of_values ord rs (step_width a a steps)) lit_0_0"
  using d_mul_zero[OF assms(3)]
  by (auto simp: trapezoid_of_values_def step_width_self[OF assms(1,2)] d_eq_zero)

subsection \<open>\<open>find_root\<close>\<close>

lemma find_root_loop_small:
  assumes "i < max_iter" "derivative_small f df (x, w)"
  shows "find_root_loop f df max_iter i x w = (x, snd (newton_step f df (x, w)))"
  using assms
  by (subst find_root_loop.simps)
     (simp add: derivative_small_def derivative_at_def newton_step_def invoke_double_eq)

lemma find_root_loop_converged:
  assumes "i < max_iter" "\<not> derivative_small f df (x, w)" "converged f df (x, w)"
  shows "find_root_loop f df max_iter i x w = (x, snd (newton_step f df (x, w)))"
  using assms
  by (subst find_root_loop.simps)
     (simp add: derivative_small_def converged_def derivative_at_def newton_step_def Let_def
        invoke_double_eq)

lemma find_root_loop_step:
  assumes "i < max_iter" "\<not> derivative_small f df (x, w)" "\<not> converged f df (x, w)"
  shows "find_root_loop f df max_iter i x w =
           find_root_loop f df max_iter (i + 1) (fst (newton_step f df (x, w)))
             (snd (newton_step f df (x, w)))"
  using assms
  by (subst find_root_loop.simps)
     (simp add: derivative_small_def converged_def derivative_at_def newton_step_def Let_def
        invoke_double_eq)

lemma keeps_going_Suc:
  "keeps_going f df x0 w (Suc k) \<longleftrightarrow>
     keeps_going f df x0 w k \<and> \<not> derivative_small f df (newton_state f df x0 w k)
       \<and> \<not> converged f df (newton_state f df x0 w k)"
  by (auto simp: keeps_going_def)

lemma newton_state_Suc:
  "newton_state f df x0 w (Suc k) = newton_step f df (newton_state f df x0 w k)"
  by (simp add: newton_state_def)

lemma find_root_loop_unroll:
  assumes "keeps_going f df x0 w k" "int k \<le> max_iter"
  shows "find_root_loop f df max_iter 0 x0 w =
           find_root_loop f df max_iter (int k) (fst (newton_state f df x0 w k))
             (snd (newton_state f df x0 w k))"
  using assms
proof (induction k)
  case 0
  then show ?case by (simp add: newton_state_def)
next
  case (Suc k)
  from Suc.prems have kg: "keeps_going f df x0 w k"
    and t: "\<not> derivative_small f df (newton_state f df x0 w k)"
           "\<not> converged f df (newton_state f df x0 w k)"
    and lt: "int k < max_iter"
    by (simp_all add: keeps_going_Suc)
  have "find_root_loop f df max_iter 0 x0 w =
          find_root_loop f df max_iter (int k) (fst (newton_state f df x0 w k))
             (snd (newton_state f df x0 w k))"
    using Suc.IH kg lt by simp
  also have "\<dots> = find_root_loop f df max_iter (int k + 1)
        (fst (newton_step f df (newton_state f df x0 w k)))
        (snd (newton_step f df (newton_state f df x0 w k)))"
    using find_root_loop_step[OF lt, of f df "fst (newton_state f df x0 w k)" "snd (newton_state f df x0 w k)"] t
    by simp
  finally show ?case
    by (simp add: newton_state_Suc add.commute)
qed

lemma find_root_returns_previous:
  assumes "int k < max_iter" "keeps_going f df x0 w k"
    "\<not> derivative_small f df (newton_state f df x0 w k)"
    "converged f df (newton_state f df x0 w k)"
  shows "find_root f df x0 max_iter w =
           (fst (newton_state f df x0 w k), snd (newton_state f df x0 w (Suc k)))"
proof -
  have "find_root f df x0 max_iter w =
          find_root_loop f df max_iter (int k) (fst (newton_state f df x0 w k))
             (snd (newton_state f df x0 w k))"
    unfolding find_root_def using assms(1,2) by (intro find_root_loop_unroll) simp_all
  also have "\<dots> = (fst (newton_state f df x0 w k), snd (newton_step f df (newton_state f df x0 w k)))"
    using find_root_loop_converged[OF assms(1), of f df "fst (newton_state f df x0 w k)"
        "snd (newton_state f df x0 w k)"] assms(3,4)
    by simp
  finally show ?thesis by (simp add: newton_state_Suc)
qed

subsection \<open>The divisors of \<open>find_root\<close>\<close>

lemma representableI:
  assumes "q = of_int m * 2 powi e" "0 < m" "m < 2 ^ 53" "- 1074 \<le> e" "e \<le> 971"
  shows "representable q"
proof -
  have "(of_int m :: rat) < of_int (2 ^ 53)" using assms(3) by (simp only: of_int_less_iff)
  then have m: "(of_int m :: rat) < 2 ^ 53" by simp
  have "(2::rat) powi e \<le> 2 powi 971"
    using assms(5) by (intro power_int_increasing) simp_all
  then have e: "(2::rat) powi e \<le> 2 ^ 971" by simp
  have "q < 2 ^ 53 * 2 powi e"
    unfolding assms(1) using m by simp
  also have "\<dots> \<le> 2 ^ 53 * 2 ^ 971"
    using e by (intro mult_left_mono) simp_all
  also have "\<dots> = 2 ^ 1024"
    by (simp flip: power_add)
  finally have "q < 2 ^ 1024" .
  with assms(1-4) have "q = of_int m * 2 powi e \<and> 0 < m \<and> m < 2 ^ 53 \<and> - 1074 \<le> e \<and> q < 2 ^ 1024"
    by blast
  then show ?thesis unfolding representable_def by blast
qed

lemma representable_tiny: "representable (1 / 2 ^ 40)"
  by (rule representableI[of _ 1 "- 40"]) simp_all

lemma find_root_divisors_loop_small:
  assumes "i < max_iter" "derivative_small f df (x, w)"
  shows "find_root_divisors_loop f df max_iter i x w = []"
  using assms
  by (subst find_root_divisors_loop.simps)
     (simp add: derivative_small_def derivative_at_def invoke_double_eq)

lemma find_root_divisors_loop_converged:
  assumes "i < max_iter" "\<not> derivative_small f df (x, w)" "converged f df (x, w)"
  shows "find_root_divisors_loop f df max_iter i x w = [derivative_at f df (x, w)]"
  using assms
  by (subst find_root_divisors_loop.simps)
     (simp add: derivative_small_def converged_def derivative_at_def newton_step_def Let_def
        invoke_double_eq)

lemma find_root_divisors_loop_step:
  assumes "i < max_iter" "\<not> derivative_small f df (x, w)" "\<not> converged f df (x, w)"
  shows "find_root_divisors_loop f df max_iter i x w =
           derivative_at f df (x, w)
           # find_root_divisors_loop f df max_iter (i + 1) (fst (newton_step f df (x, w)))
               (snd (newton_step f df (x, w)))"
  using assms
  by (subst find_root_divisors_loop.simps)
     (simp add: derivative_small_def converged_def derivative_at_def newton_step_def Let_def
        invoke_double_eq)

lemma find_root_divisors_loop_done:
  "\<not> i < max_iter \<Longrightarrow> find_root_divisors_loop f df max_iter i x w = []"
  by (subst find_root_divisors_loop.simps) simp

lemma find_root_divisors_loop_not_small:
  "d \<in> set (find_root_divisors_loop f df max_iter i x w) \<Longrightarrow> \<not> d_lt (fabs d) lit_1e_10"
proof (induction f df max_iter i x w rule: find_root_divisors_loop.induct)
  case (1 f df max_iter i x w)
  show ?case
  proof (cases "i < max_iter")
    case False
    with "1.prems" show ?thesis by (simp add: find_root_divisors_loop_done)
  next
    case lt: True
    show ?thesis
    proof (cases "derivative_small f df (x, w)")
      case True
      with "1.prems" lt show ?thesis by (simp add: find_root_divisors_loop_small)
    next
      case ns: False
      show ?thesis
      proof (cases "converged f df (x, w)")
        case True
        with "1.prems" lt ns show ?thesis
          by (simp add: find_root_divisors_loop_converged derivative_small_def)
      next
        case False
        define fx where "fx = fst (invoke_double f x w)"
        define w1 where "w1 = snd (invoke_double f x w)"
        define dfx where "dfx = fst (invoke_double df x w1)"
        define w2 where "w2 = snd (invoke_double df x w1)"
        define x_new where "x_new = d_sub x (d_div fx dfx)"
        have a: "(fx, w1) = invoke_double f x w" "(dfx, w2) = invoke_double df x w1"
          by (simp_all add: fx_def w1_def dfx_def w2_def)
        have b: "\<not> d_lt (fabs dfx) lit_1e_10"
          using ns by (simp add: derivative_small_def derivative_at_def dfx_def w1_def split: prod.splits)
        have c: "\<not> d_lt (fabs (d_sub x_new x)) lit_1e_10"
          using False
          by (simp add: converged_def newton_step_def x_new_def fx_def dfx_def w1_def split: prod.splits)
        have ns': "newton_step f df (x, w) = (x_new, w2)"
          by (simp add: newton_step_def x_new_def fx_def dfx_def w1_def w2_def split: prod.splits)
        have da: "derivative_at f df (x, w) = dfx"
          by (simp add: derivative_at_def dfx_def w1_def split: prod.splits)
        from "1.prems" have "d = dfx \<or> d \<in> set (find_root_divisors_loop f df max_iter (i + 1) x_new w2)"
          by (simp add: find_root_divisors_loop_step[OF lt ns False] ns' da)
        then show ?thesis
        proof
          assume "d = dfx"
          with b show ?thesis by simp
        next
          assume "d \<in> set (find_root_divisors_loop f df max_iter (i + 1) x_new w2)"
          then show ?thesis
            by (rule "1.IH"[OF lt a b x_new_def c])
        qed
      qed
    qed
  qed
qed

lemma not_small_cases:
  assumes "\<not> d_lt (fabs d) lit_1e_10"
  shows "(d_ge (fabs d) lit_1e_10 \<or> isnan d) \<and> \<not> d_eq d lit_0_0"
proof (cases d)
  case (Finite s q)
  with assms have "\<not> q < 7737125245533627 / 2 ^ 86"
    by (simp add: lit_1e_10_value val_def)
  then have "q \<noteq> 0" by auto
  with assms Finite show ?thesis
    by (auto simp: d_ge_def d_eq_def lit_0_0_def lit_1e_10_value val_def)
next
  case (Infinity s)
  then show ?thesis
    by (simp add: d_ge_def d_eq_def lit_0_0_def lit_1e_10_value)
next
  case NaN
  then show ?thesis by (simp add: d_eq_def)
qed

lemma find_root_divisors_unroll:
  assumes "keeps_going f df x0 w k" "int k \<le> max_iter"
  shows "find_root_divisors_loop f df max_iter 0 x0 w =
           map (\<lambda>j. derivative_at f df (newton_state f df x0 w j)) [0..<k]
           @ find_root_divisors_loop f df max_iter (int k) (fst (newton_state f df x0 w k))
               (snd (newton_state f df x0 w k))"
  using assms
proof (induction k)
  case 0
  then show ?case by (simp add: newton_state_def)
next
  case (Suc k)
  from Suc.prems have kg: "keeps_going f df x0 w k"
    and t: "\<not> derivative_small f df (newton_state f df x0 w k)"
           "\<not> converged f df (newton_state f df x0 w k)"
    and lt: "int k < max_iter"
    by (simp_all add: keeps_going_Suc)
  have "find_root_divisors_loop f df max_iter 0 x0 w =
          map (\<lambda>j. derivative_at f df (newton_state f df x0 w j)) [0..<k]
           @ find_root_divisors_loop f df max_iter (int k) (fst (newton_state f df x0 w k))
               (snd (newton_state f df x0 w k))"
    using Suc.IH kg lt by simp
  also have "find_root_divisors_loop f df max_iter (int k) (fst (newton_state f df x0 w k))
               (snd (newton_state f df x0 w k))
      = derivative_at f df (newton_state f df x0 w k)
        # find_root_divisors_loop f df max_iter (int k + 1)
        (fst (newton_step f df (newton_state f df x0 w k)))
        (snd (newton_step f df (newton_state f df x0 w k)))"
    using find_root_divisors_loop_step[OF lt, of f df "fst (newton_state f df x0 w k)" "snd (newton_state f df x0 w k)"] t
    by simp
  finally show ?case
    by (simp add: newton_state_Suc add.commute)
qed

lemma find_root_stops_before_dividing:
  assumes "int k < max_iter" "keeps_going f df x0 w k"
    "derivative_small f df (newton_state f df x0 w k)"
  shows "find_root f df x0 max_iter w =
           (fst (newton_state f df x0 w k), snd (newton_state f df x0 w (Suc k)))"
    and "find_root_divisors f df x0 max_iter w =
           map (\<lambda>j. derivative_at f df (newton_state f df x0 w j)) [0..<k]"
proof -
  have "find_root f df x0 max_iter w =
          find_root_loop f df max_iter (int k) (fst (newton_state f df x0 w k))
             (snd (newton_state f df x0 w k))"
    unfolding find_root_def using assms(1,2) by (intro find_root_loop_unroll) simp_all
  also have "\<dots> = (fst (newton_state f df x0 w k), snd (newton_step f df (newton_state f df x0 w k)))"
    using find_root_loop_small[OF assms(1), of f df "fst (newton_state f df x0 w k)"
        "snd (newton_state f df x0 w k)"] assms(3)
    by simp
  finally show "find_root f df x0 max_iter w =
           (fst (newton_state f df x0 w k), snd (newton_state f df x0 w (Suc k)))"
    by (simp add: newton_state_Suc)
  have "find_root_divisors f df x0 max_iter w =
          map (\<lambda>j. derivative_at f df (newton_state f df x0 w j)) [0..<k]
           @ find_root_divisors_loop f df max_iter (int k) (fst (newton_state f df x0 w k))
               (snd (newton_state f df x0 w k))"
    unfolding find_root_divisors_def using assms(1,2) by (intro find_root_divisors_unroll) simp_all
  also have "find_root_divisors_loop f df max_iter (int k) (fst (newton_state f df x0 w k))
               (snd (newton_state f df x0 w k)) = []"
    using find_root_divisors_loop_small[OF assms(1), of f df "fst (newton_state f df x0 w k)"
        "snd (newton_state f df x0 w k)"] assms(3)
    by simp
  finally show "find_root_divisors f df x0 max_iter w =
           map (\<lambda>j. derivative_at f df (newton_state f df x0 w j)) [0..<k]"
    by simp
qed

subsection \<open>The concrete inputs\<close>

lemmas callback_eval = pure_cb_def invoke_double_eq newton_step_def derivative_at_def
  derivative_small_def converged_def newton_state_def keeps_going_def

lemmas double_eval = d_sub_def val_def Let_def round_double_representable lit_1e_10_value
  lit_0_0_def lit_1_0_def lit_2_0_def

lemma minus_tiny_0: "minus_tiny (Finite False 0) = Finite True (1 / 2 ^ 40)"
  using representable_tiny by (simp add: minus_tiny_def double_eval)

lemma tiny_example:
  "\<not> derivative_small (pure_cb minus_tiny) (pure_cb const_one) (Finite False 0, empty_world)"
  "converged (pure_cb minus_tiny) (pure_cb const_one) (Finite False 0, empty_world)"
  "fst (newton_step (pure_cb minus_tiny) (pure_cb const_one) (Finite False 0, empty_world))
     = Finite False (1 / 2 ^ 40)"
  using representable_tiny
  by (simp_all add: callback_eval double_eval minus_tiny_0 const_one_def)

lemma tiny_result:
  "fst (find_root (pure_cb minus_tiny) (pure_cb const_one) (Finite False 0) 10 empty_world)
     = Finite False 0"
  using find_root_returns_previous[of 0 10 "pure_cb minus_tiny" "pure_cb const_one" "Finite False 0" empty_world]
    tiny_example(1,2)
  by (simp add: keeps_going_def newton_state_def)

lemma minus_42_values:
  "minus_42 (Finite False 0) = Finite True 42"
  "minus_42 (Finite False 42) = Finite False 0"
  using representable_42 by (simp_all add: minus_42_def double_eval)

lemma newton_42_state_1:
  "newton_state (pure_cb minus_42) (pure_cb const_one) (Finite False 0) empty_world 1
     = (Finite False 42,
        empty_world\<lparr>trace := [Call [PDouble (Finite False 0)] (PDouble (Finite True 42)),
                              Call [PDouble (Finite False 0)] (PDouble (Finite False 1))]\<rparr>)"
  using representable_42
  by (simp add: callback_eval double_eval minus_42_values const_one_def empty_world_def)

lemma newton_42_tests:
  "keeps_going (pure_cb minus_42) (pure_cb const_one) (Finite False 0) empty_world 1"
  "\<not> derivative_small (pure_cb minus_42) (pure_cb const_one)
       (newton_state (pure_cb minus_42) (pure_cb const_one) (Finite False 0) empty_world 1)"
  "converged (pure_cb minus_42) (pure_cb const_one)
       (newton_state (pure_cb minus_42) (pure_cb const_one) (Finite False 0) empty_world 1)"
  using representable_42
  by (simp_all add: newton_42_state_1 keeps_going_def)
     (simp_all add: callback_eval double_eval minus_42_values const_one_def)

lemma nan_divisor:
  "find_root_divisors (pure_cb const_zero) (pure_cb const_nan) (Finite False 0) 1 empty_world = [NaN]"
proof -
  have a: "\<not> derivative_small (pure_cb const_zero) (pure_cb const_nan) (Finite False 0, empty_world)"
    "\<not> converged (pure_cb const_zero) (pure_cb const_nan) (Finite False 0, empty_world)"
    "derivative_at (pure_cb const_zero) (pure_cb const_nan) (Finite False 0, empty_world) = NaN"
    by (simp_all add: callback_eval double_eval const_zero_def const_nan_def)
  show ?thesis
    unfolding find_root_divisors_def
    by (subst find_root_divisors_loop_step[OF _ a(1,2)])
       (simp_all add: a(3) find_root_divisors_loop_done)
qed

lemma zero_derivative_example:
  "derivative_small (pure_cb minus_42) (pure_cb const_zero)
     (newton_state (pure_cb minus_42) (pure_cb const_zero) (Finite False 0) empty_world 0)"
  by (simp add: callback_eval double_eval const_zero_def)

lemma overflow_example:
  "trapezoid const_dbl_max (Finite False 0) (Finite False 0) 1 = NaN"
  by (simp add: trapezoid_single const_dbl_max_def d_add_dbl_max lit_2_0_def d_sub_self)

lemma d_mul_NaN_right: "d_mul x NaN = NaN"
  by (cases x) simp_all

lemma infinite_bound_example:
  "trapezoid const_zero (Infinity False) (Infinity False) 1 = NaN"
  by (simp add: trapezoid_single const_zero_def d_sub_def d_mul_NaN_right)

lemma find_root_divisors_converged:
  assumes "int k < max_iter" "keeps_going f df x0 w k"
    "\<not> derivative_small f df (newton_state f df x0 w k)"
    "converged f df (newton_state f df x0 w k)"
  shows "find_root_divisors f df x0 max_iter w =
           map (\<lambda>j. derivative_at f df (newton_state f df x0 w j)) [0..<Suc k]"
proof -
  have "find_root_divisors f df x0 max_iter w =
          map (\<lambda>j. derivative_at f df (newton_state f df x0 w j)) [0..<k]
           @ find_root_divisors_loop f df max_iter (int k) (fst (newton_state f df x0 w k))
               (snd (newton_state f df x0 w k))"
    unfolding find_root_divisors_def using assms(1,2) by (intro find_root_divisors_unroll) simp_all
  also have "find_root_divisors_loop f df max_iter (int k) (fst (newton_state f df x0 w k))
               (snd (newton_state f df x0 w k)) = [derivative_at f df (newton_state f df x0 w k)]"
    using find_root_divisors_loop_converged[OF assms(1), of f df "fst (newton_state f df x0 w k)"
        "snd (newton_state f df x0 w k)"] assms(3,4)
    by simp
  finally show ?thesis by simp
qed

lemma newton_42_divisors:
  "find_root_divisors (pure_cb minus_42) (pure_cb const_one) (Finite False 0) 10 empty_world
     = [Finite False 1, Finite False 1]"
proof -
  have "derivative_at (pure_cb minus_42) (pure_cb const_one) s = Finite False 1" for s :: "double \<times> unit world"
    by (cases s) (simp add: callback_eval const_one_def)
  then show ?thesis
    using find_root_divisors_converged[of 1 10 "pure_cb minus_42" "pure_cb const_one"
        "Finite False 0" empty_world] newton_42_tests
    by (simp add: upt_rec)
qed





lemma trapezoid_const_one:
  "trapezoid const_one (Finite False 0) (Finite False 1) 1 = Finite False 1"
  "trapezoid_sum const_one (Finite False 42) (Finite False 42) 1 = Finite False 1"
  by (simp_all add: trapezoid_single trapezoid_sum_def sample_points_def const_one_def
      lit_2_0_def d_sub_def val_def round_double_representable representable_1
      representable_numeral)


section \<open>Properties of the library\<close>

text \<open>
  \<^bold>\<open>C1\<close>, amended. When an iteration of \<open>find_root\<close> computes \<open>x_new\<close> and the
  convergence test \<open>fabs(x_new - x) < 1e-10\<close> holds, the loop is left by \<open>break\<close> before
  \<open>x = x_new\<close>, so the function returns the iterate \<open>x\<close> the test was made at, not
  \<open>x_new\<close>. Stated for the iteration number \<open>k\<close>: if the iterations before it pass both
  tests, and iteration \<open>k\<close> (with \<open>k < max_iter\<close>) finds the derivative not small and the
  convergence test true, then \<open>find_root\<close> returns the iterate of state \<open>k\<close> and the world
  after the two calls of that iteration; \<open>x_new\<close> is the iterate of state \<open>k + 1\<close>.
\<close>

theorem find_root_convergence_returns_current_iterate:
  assumes "int k < max_iter"
    and "keeps_going f df x0 w k"
    and "\<not> derivative_small f df (newton_state f df x0 w k)"
    and "converged f df (newton_state f df x0 w k)"
  shows "find_root f df x0 max_iter w =
           (fst (newton_state f df x0 w k), snd (newton_state f df x0 w (Suc k)))"
  using assms by (rule find_root_returns_previous)

theorem find_root_convergence_returns_current_iterate_witness:
  "int 1 < 10
   \<and> keeps_going (pure_cb minus_42) (pure_cb const_one) (Finite False 0) empty_world 1
   \<and> \<not> derivative_small (pure_cb minus_42) (pure_cb const_one)
         (newton_state (pure_cb minus_42) (pure_cb const_one) (Finite False 0) empty_world 1)
   \<and> converged (pure_cb minus_42) (pure_cb const_one)
         (newton_state (pure_cb minus_42) (pure_cb const_one) (Finite False 0) empty_world 1)
   \<and> fst (find_root (pure_cb minus_42) (pure_cb const_one) (Finite False 0) 10 empty_world)
       = Finite False 42"
  using find_root_convergence_returns_current_iterate[of 1 10 "pure_cb minus_42" "pure_cb const_one"
      "Finite False 0" empty_world] newton_42_tests newton_42_state_1
  by simp

text \<open>
  As the specification states it (the function returns \<open>x_new\<close>), the property fails
  for \<open>f(x) = x - 2 powi -40\<close>, \<open>df(x) = 1\<close>, \<open>x0 = 0\<close> and \<open>max_iter = 10\<close>: the first
  iteration finds the derivative not small, computes \<open>x_new = 2 powi -40\<close>, the
  convergence test holds, and the function returns \<open>0\<close>.
\<close>

theorem find_root_returns_x_new_counterexample:
  "\<not> derivative_small (pure_cb minus_tiny) (pure_cb const_one) (Finite False 0, empty_world)
   \<and> converged (pure_cb minus_tiny) (pure_cb const_one) (Finite False 0, empty_world)
   \<and> fst (newton_step (pure_cb minus_tiny) (pure_cb const_one) (Finite False 0, empty_world))
       = Finite False (1 / 2 ^ 40)
   \<and> fst (find_root (pure_cb minus_tiny) (pure_cb const_one) (Finite False 0) 10 empty_world)
       = Finite False 0
   \<and> fst (find_root (pure_cb minus_tiny) (pure_cb const_one) (Finite False 0) 10 empty_world)
       \<noteq> fst (newton_step (pure_cb minus_tiny) (pure_cb const_one) (Finite False 0, empty_world))"
  using tiny_example tiny_result by simp

text \<open>
  \<^bold>\<open>C2\<close>. \<open>integrate\<close> computes \<open>h = (b - a) / steps\<close>, calls the callback on the two end
  points and then on \<open>a + 1 * h\<close>, ..., \<open>a + (steps - 1) * h\<close> in ascending order, adds the
  interior values from left to right to \<open>(f(a) + f(b)) / 2\<close> and returns the sum times \<open>h\<close>.
  First for any callback (the values are the ones its calls returned, each call in the host
  state the previous one left, and the trace lists the calls in order); then for a
  callback without side effects that computes \<open>g\<close>, where the result is \<open>trapezoid g a b
  steps\<close>; and for \<open>steps = 1\<close> this is \<open>(g(a) + g(b)) / 2 * (b - a)\<close>. The equations hold for
  every \<open>steps\<close>, in particular for \<open>steps \<ge> 1\<close>, and for both orders in which
  \<open>function(a) + function(b)\<close> may call.
\<close>

theorem integrate_is_trapezoidal_rule:
  "integrate ord f a b steps w =
     (trapezoid_of_values ord (fst (thread_calls f (integrate_args ord a b steps) (host w)))
        (step_width a b steps),
      w\<lparr>host := snd (thread_calls f (integrate_args ord a b steps) (host w)),
        trace := trace w @ calls_trace (integrate_args ord a b steps)
                   (fst (thread_calls f (integrate_args ord a b steps) (host w)))\<rparr>)
   \<and> integrate ord (pure_cb g) a b steps w =
       (trapezoid g a b steps,
        w\<lparr>trace := trace w @
            map (\<lambda>x. Call [PDouble x] (PDouble (g x))) (integrate_args ord a b steps)\<rparr>)
   \<and> trapezoid g a b steps
       = d_mul (foldl d_add (d_div (d_add (g a) (g b)) lit_2_0)
                  (map (\<lambda>i. g (d_add a (d_mul (double_of_int i) (d_div (d_sub b a) (double_of_int steps)))))
                     [1..steps - 1]))
           (d_div (d_sub b a) (double_of_int steps))
   \<and> trapezoid g a b 1 = d_mul (d_div (d_add (g a) (g b)) lit_2_0) (d_sub b a)"
proof -
  have "trapezoid g a b steps
       = d_mul (foldl d_add (d_div (d_add (g a) (g b)) lit_2_0)
                  (map (\<lambda>i. g (d_add a (d_mul (double_of_int i) (d_div (d_sub b a) (double_of_int steps)))))
                     [1..steps - 1]))
           (d_div (d_sub b a) (double_of_int steps))"
    by (simp add: trapezoid_def trapezoid_sum_def sample_points_def step_width_def comp_def)
  with integrate_threaded[of ord f a b steps w] integrate_pure[of ord g a b steps w]
    trapezoid_single[of g a b]
  show ?thesis by blast
qed

theorem integrate_is_trapezoidal_rule_witness:
  "fst (integrate Left_first (pure_cb const_one) (Finite False 0) (Finite False 1) 1 empty_world)
     = Finite False 1"
  using integrate_is_trapezoidal_rule[of Left_first "pure_cb const_one" "Finite False 0"
      "Finite False 1" 1 empty_world const_one, THEN conjunct2, THEN conjunct1]
  by (simp add: trapezoid_const_one)




text \<open>
  \<^bold>\<open>C4\<close>. \<open>call_with_validation\<close> invokes the callback once. When the result is NaN or
  an infinity it returns \<open>-1.0\<close> and writes the diagnostic to \<open>stderr\<close>; otherwise it returns
  the result unchanged and writes nothing. A finite result \<open>r\<close> is returned as \<open>r\<close>.
\<close>

theorem call_with_validation_contract:
  "call_with_validation cb v w =
     (let r = fst (cb v (host w));
          w1 = w\<lparr>host := snd (cb v (host w)), trace := trace w @ [Call [PDouble v] (PDouble r)]\<rparr>
      in if isnan r \<or> isinf r
         then (Finite True 1,
               w1\<lparr>trace := trace w1 @ [Stderr ''C: Callback returned invalid result\<newline>'' []]\<rparr>)
         else (r, w1))
   \<and> (isfinite (fst (cb v (host w)))
        \<longrightarrow> fst (call_with_validation cb v w) = fst (cb v (host w)))"
  by (simp add: call_with_validation_eq Let_def isfinite_iff)

theorem call_with_validation_contract_witness:
  "isfinite (fst (pure_cb test_double_function (Finite False 21) (host empty_world)))
   \<and> fst (call_with_validation (pure_cb test_double_function) (Finite False 21) empty_world)
       = Finite False 42
   \<and> call_with_validation (pure_cb const_nan) (Finite False 21) empty_world
       = (Finite True 1,
          \<lparr>host = (),
           trace = [Call [PDouble (Finite False 21)] (PDouble NaN),
                    Stderr ''C: Callback returned invalid result\<newline>'' []]\<rparr>)"
  using call_with_validation_contract[of "pure_cb test_double_function" "Finite False 21" empty_world]
    call_with_validation_contract[of "pure_cb const_nan" "Finite False 21" empty_world]
  by (simp add: pure_cb_def double_21 const_nan_def empty_world_def Let_def)

text \<open>
  \<^bold>\<open>C5\<close>. \<open>sum_callback_results\<close> calls the callback on \<open>0\<close>, \<open>1\<close>, ..., \<open>count - 1\<close> in
  this order and returns the sum of the results, each converted to \<open>double\<close> and added to
  the running sum, which starts at \<open>0.0\<close>. For \<open>count \<le> 0\<close> it returns \<open>0.0\<close> and calls
  nothing. With the identity callback and \<open>count = 5\<close> it returns \<open>10.0\<close>.
\<close>

theorem sum_callback_results_sums_in_order:
  "sum_callback_results cb count w =
     (foldl (\<lambda>acc r. d_add acc (double_of_int r)) (Finite False 0)
        (fst (thread_calls cb [0..count - 1] (host w))),
      w\<lparr>host := snd (thread_calls cb [0..count - 1] (host w)),
        trace := trace w @ int_calls_trace [0..count - 1]
                   (fst (thread_calls cb [0..count - 1] (host w)))\<rparr>)
   \<and> (count \<le> 0 \<longrightarrow> sum_callback_results cb count w = (Finite False 0, w))
   \<and> fst (sum_callback_results (pure_cb identity_int) 5 w) = Finite False 10"
proof -
  have a: "sum_callback_results cb count w =
     (foldl (\<lambda>acc r. d_add acc (double_of_int r)) (Finite False 0)
        (fst (thread_calls cb [0..count - 1] (host w))),
      w\<lparr>host := snd (thread_calls cb [0..count - 1] (host w)),
        trace := trace w @ int_calls_trace [0..count - 1]
                   (fst (thread_calls cb [0..count - 1] (host w)))\<rparr>)" for cb count
    using sum_callback_results_thread[of cb count w] by (simp add: lit_0_0_def)
  have b: "count \<le> 0 \<longrightarrow> sum_callback_results cb count w = (Finite False 0, w)"
    by (simp add: a int_calls_trace_Nil)
  have "identity_int = (\<lambda>i. i)"
    by (rule ext) (simp add: identity_int_def)
  then have c: "fst (sum_callback_results (pure_cb identity_int) 5 w) = Finite False 10"
    using sum_identity_5 by (simp add: a thread_calls_pure lit_0_0_def)
  from a[of cb count] b c show ?thesis by blast
qed

theorem sum_callback_results_sums_in_order_witness:
  "(- 3 :: int) \<le> 0
   \<and> sum_callback_results (pure_cb identity_int) (- 3) empty_world = (Finite False 0, empty_world)
   \<and> fst (sum_callback_results (pure_cb identity_int) 5 empty_world) = Finite False 10"
  using sum_callback_results_sums_in_order[of "pure_cb identity_int" "- 3" empty_world,
      THEN conjunct2]
  by simp

text \<open>
  \<^bold>\<open>C6\<close>, amended. For a finite bound \<open>a\<close>, \<open>steps \<ge> 1\<close> and a callback whose
  accumulated sum \<open>(f(a) + f(a)) / 2 + f(a + 1 * h) + ...\<close> is finite (neither NaN nor an
  infinity), \<open>integrate(f, a, a, steps)\<close> returns a zero, \<open>+0.0\<close> or \<open>-0.0\<close>, which C's
  \<open>==\<close> finds equal to \<open>0\<close>. First for any callback, the sum taken over the values its
  calls returned; then for a callback without side effects that computes \<open>g\<close>.
\<close>

theorem integrate_zero_width:
  assumes "isfinite a" and "1 \<le> steps"
  shows "(isfinite (trapezoid_sum_of_values ord
                     (fst (thread_calls f (integrate_args ord a a steps) (host w))))
          \<longrightarrow> d_eq (fst (integrate ord f a a steps w)) lit_0_0)
       \<and> (isfinite (trapezoid_sum g a a steps)
          \<longrightarrow> d_eq (fst (integrate ord (pure_cb g) a a steps w)) lit_0_0)"
  using trapezoid_zero_width[OF assms, of ord "fst (thread_calls f (integrate_args ord a a steps) (host w))"]
    trapezoid_zero_width[OF assms, of ord "map g (integrate_args ord a a steps)"]
  by (simp add: integrate_threaded thread_calls_pure trapezoid_sum_of_values_pure)

theorem integrate_zero_width_witness:
  "isfinite (Finite False 42) \<and> (1::int) \<le> 1
   \<and> isfinite (trapezoid_sum const_one (Finite False 42) (Finite False 42) 1)
   \<and> d_eq (fst (integrate Left_first (pure_cb const_one) (Finite False 42) (Finite False 42) 1
               empty_world)) lit_0_0"
  using integrate_zero_width[of "Finite False 42" 1 Left_first "pure_cb const_one" empty_world
      const_one, THEN conjunct2]
  by (simp add: trapezoid_const_one)

text \<open>
  As the specification states it (finite values at the sample points, every bound), the
  property fails in two ways. The values of the callback are finite but the sum overflows:
  for the constant callback \<open>DBL_MAX\<close>, \<open>a = 0\<close> and \<open>steps = 1\<close> the sum is
  \<open>(DBL_MAX + DBL_MAX) / 2\<close>, an infinity, and its product with \<open>h = 0\<close> is NaN. And the
  bound is not finite: for \<open>a\<close> an infinity, \<open>a - a\<close> is NaN, and so is the result.
\<close>

theorem integrate_zero_width_counterexample:
  "isfinite (const_dbl_max (Finite False 0))
   \<and> fst (integrate Left_first (pure_cb const_dbl_max) (Finite False 0) (Finite False 0) 1
           empty_world) = NaN
   \<and> isfinite (const_zero (Infinity False))
   \<and> fst (integrate Left_first (pure_cb const_zero) (Infinity False) (Infinity False) 1
           empty_world) = NaN
   \<and> \<not> d_eq NaN lit_0_0"
  by (simp add: integrate_pure overflow_example infinite_bound_example const_dbl_max_def
      dbl_max_def const_zero_def d_eq_def)

text \<open>
  \<^bold>\<open>C7\<close>. With \<open>max_iter = 0\<close>, \<open>find_root\<close> returns \<open>x0\<close> and leaves the world as it
  was: no callback is invoked (the trace gets no \<open>Call\<close> event and the host state is the
  one before the call), whatever the callbacks \<open>f\<close> and \<open>df\<close> and the guess \<open>x0\<close> are.
\<close>

theorem find_root_zero_iterations:
  "find_root f df x0 0 w = (x0, w)"
  by (simp add: find_root_def) (subst find_root_loop.simps, simp)

theorem find_root_zero_iterations_witness:
  "find_root (pure_cb minus_42) (pure_cb const_one) (Finite False 0) 0 empty_world
     = (Finite False 0, empty_world)"
  using find_root_zero_iterations[of "pure_cb minus_42" "pure_cb const_one" "Finite False 0" empty_world]
  by simp

text \<open>
  \<^bold>\<open>C8\<close>. \<open>call_with_double\<close> and \<open>call_with_two_doubles\<close> pass the callback's result
  through: the value returned is the value the callback returned for the given arguments
  in the host state of the call, the host state afterwards is the one that single call
  left, and the trace gains the first \<open>printf\<close>, one \<open>Call\<close> and the second \<open>printf\<close>.
  For the test callbacks of the source, \<open>call_with_two_doubles(test_add_function, 15.0,
  27.0)\<close> and \<open>call_with_double(test_double_function, 21.0)\<close> are both \<open>42.0\<close>.
\<close>

theorem call_primitives_pass_through:
  "call_with_double cb v w =
     (fst (cb v (host w)),
      w\<lparr>host := snd (cb v (host w)),
        trace := trace w @
          [Stdout ''C: Calling callback with %.2f\<newline>'' [PDouble v],
           Call [PDouble v] (PDouble (fst (cb v (host w)))),
           Stdout ''C: Callback returned %.2f\<newline>'' [PDouble (fst (cb v (host w)))]]\<rparr>)
   \<and> call_with_two_doubles cb2 a b w =
     (fst (cb2 a b (host w)),
      w\<lparr>host := snd (cb2 a b (host w)),
        trace := trace w @
          [Stdout ''C: Calling callback with %.2f and %.2f\<newline>'' [PDouble a, PDouble b],
           Call [PDouble a, PDouble b] (PDouble (fst (cb2 a b (host w)))),
           Stdout ''C: Callback returned %.2f\<newline>'' [PDouble (fst (cb2 a b (host w)))]]\<rparr>)
   \<and> fst (call_with_two_doubles (pure_cb2 test_add_function) (Finite False 15) (Finite False 27) w)
       = Finite False 42
   \<and> fst (call_with_double (pure_cb test_double_function) (Finite False 21) w) = Finite False 42"
  by (simp add: call_with_double_def call_with_two_doubles_def invoke_double_eq
      invoke_binary_eq printf_def pure_cb_def pure_cb2_def add_15_27 double_21)

theorem call_primitives_pass_through_witness:
  "call_with_double (pure_cb test_double_function) (Finite False 21) empty_world =
     (Finite False 42,
      \<lparr>host = (),
       trace = [Stdout ''C: Calling callback with %.2f\<newline>'' [PDouble (Finite False 21)],
                Call [PDouble (Finite False 21)] (PDouble (Finite False 42)),
                Stdout ''C: Callback returned %.2f\<newline>'' [PDouble (Finite False 42)]]\<rparr>)"
  using call_primitives_pass_through[of "pure_cb test_double_function" "Finite False 21" empty_world]
  by (simp add: pure_cb_def double_21 empty_world_def)

text \<open>
  \<^bold>\<open>C9\<close>, amended. Every divisor \<open>dfx\<close> of a division \<open>fx / dfx\<close> that \<open>find_root\<close>
  executes has failed the test \<open>fabs(dfx) < 1e-10\<close>: it satisfies \<open>fabs(dfx) >= 1e-10\<close> or
  it is NaN, and it is never a zero. And if the iterations before number \<open>k\<close> pass both
  tests and iteration \<open>k\<close> (with \<open>k < max_iter\<close>) finds \<open>fabs(dfx) < 1e-10\<close>, then
  \<open>find_root\<close> returns the iterate of state \<open>k\<close> with the world after the two calls of that
  iteration, and its divisions are those of the \<open>k\<close> iterations before: it stops before
  dividing.
\<close>

theorem find_root_divides_by_nonzero:
  "(\<forall>d \<in> set (find_root_divisors f df x0 max_iter w).
      (d_ge (fabs d) lit_1e_10 \<or> isnan d) \<and> \<not> d_eq d lit_0_0)
   \<and> (int k < max_iter \<and> keeps_going f df x0 w k
        \<and> derivative_small f df (newton_state f df x0 w k)
       \<longrightarrow> find_root f df x0 max_iter w =
             (fst (newton_state f df x0 w k), snd (newton_state f df x0 w (Suc k)))
           \<and> find_root_divisors f df x0 max_iter w =
             map (\<lambda>j. derivative_at f df (newton_state f df x0 w j)) [0..<k])"
proof -
  have "(d_ge (fabs d) lit_1e_10 \<or> isnan d) \<and> \<not> d_eq d lit_0_0"
    if "d \<in> set (find_root_divisors f df x0 max_iter w)" for d
    using that unfolding find_root_divisors_def
    by (intro not_small_cases find_root_divisors_loop_not_small)
  then show ?thesis
    using find_root_stops_before_dividing[of k max_iter f df x0 w] by blast
qed

theorem find_root_divides_by_nonzero_witness:
  "Finite False 1
     \<in> set (find_root_divisors (pure_cb minus_42) (pure_cb const_one) (Finite False 0) 10 empty_world)
   \<and> d_ge (fabs (Finite False 1)) lit_1e_10
   \<and> \<not> d_eq (Finite False 1) lit_0_0
   \<and> int 0 < 10
   \<and> keeps_going (pure_cb minus_42) (pure_cb const_zero) (Finite False 0) empty_world 0
   \<and> derivative_small (pure_cb minus_42) (pure_cb const_zero)
        (newton_state (pure_cb minus_42) (pure_cb const_zero) (Finite False 0) empty_world 0)
   \<and> fst (find_root (pure_cb minus_42) (pure_cb const_zero) (Finite False 0) 10 empty_world)
       = Finite False 0
   \<and> find_root_divisors (pure_cb minus_42) (pure_cb const_zero) (Finite False 0) 10 empty_world = []"
  using find_root_divides_by_nonzero[of "pure_cb minus_42" "pure_cb const_one" "Finite False 0" 10
      empty_world 0]
    find_root_divides_by_nonzero[of "pure_cb minus_42" "pure_cb const_zero" "Finite False 0" 10
      empty_world 0]
    zero_derivative_example
  by (simp add: newton_42_divisors keeps_going_def newton_state_def)

text \<open>
  As the specification states it (a division only when \<open>fabs(dfx) >= 1e-10\<close>), the
  property fails when \<open>df\<close> returns NaN: \<open>fabs(NaN) < 1e-10\<close> is false, so the division is
  executed with the divisor NaN, for which \<open>fabs(dfx) >= 1e-10\<close> is false too.
\<close>

theorem find_root_divides_only_above_threshold_counterexample:
  "find_root_divisors (pure_cb const_zero) (pure_cb const_nan) (Finite False 0) 1 empty_world = [NaN]
   \<and> \<not> d_ge (fabs NaN) lit_1e_10"
  by (simp add: nan_divisor d_ge_def)

text \<open>
  \<^bold>\<open>C10\<close>. With a negative \<open>length\<close>, \<open>map_array\<close> prints its message and returns at once:
  the world it leaves is the world it got but for the \<open>printf\<close> in the trace, so the heap
  (and the buffer in it) and the rest of the host state are unchanged and the callback is
  invoked zero times.
\<close>

theorem map_array_negative_length:
  "len < 0 \<Longrightarrow>
     map_array cb a len w =
       Some (w\<lparr>trace := trace w @
               [Stdout ''C: Mapping over array of %d elements\<newline>'' [PInt len]]\<rparr>)"
  by (rule map_array_negative)

theorem map_array_negative_length_witness:
  "(- 1 :: int) < 0
   \<and> map_array add_one_and_write 0 (- 1) (buffer_world (Finite False 21) (Finite False 0)) =
       Some ((buffer_world (Finite False 21) (Finite False 0))
               \<lparr>trace := [Stdout ''C: Mapping over array of %d elements\<newline>'' [PInt (- 1)]]\<rparr>)"
  using map_array_negative_length[of "- 1" add_one_and_write 0
      "buffer_world (Finite False 21) (Finite False 0)"]
  by (simp add: buffer_world_def)

end
